theory Spec2Isabelle
  imports Main "HOL-Library.AList"
begin

section \<open>JavaScript values used by the server\<close>

text \<open>
  A JavaScript \<open>Map\<close> keeps its keys in insertion order, so it is modelled as an
  association list: \<open>m.get(k)\<close> is \<open>map_of m k\<close> (\<open>None\<close> for \<open>undefined\<close>),
  \<open>m.has(k)\<close> is \<open>map_of m k \<noteq> None\<close>, \<open>m.set(k, v)\<close> is \<open>AList.update k v m\<close>
  (the value is replaced in place when the key is present and appended otherwise) and
  \<open>m.delete(k)\<close> is \<open>AList.delete k m\<close>.

  Reading a property of \<open>undefined\<close> throws a \<open>TypeError\<close>; it is the only exception
  the modelled code can raise.
\<close>

datatype error = TypeError

text \<open>
  Numbers inside a template literal are rendered in decimal: \<open>Date.now()\<close> and the
  stroke counter are integers of magnitude below \<open>10^21\<close>, where JavaScript starts to
  use exponent notation. A clock reading is an \<open>int\<close>.

  The stroke counter is a JavaScript number, a double. It starts at \<open>0\<close> and only
  ever changes by \<open>++\<close>, so its value is a natural number; adding one is exact below
  \<open>2^53 = 9007199254740992\<close>, and at \<open>2^53\<close> the sum rounds back to \<open>2^53\<close>, so the
  counter stays there.
\<close>

definition js_increment :: "nat \<Rightarrow> nat" where
  "js_increment c = (if int c < 9007199254740992 then c + 1 else c)"

definition digit_char :: "nat \<Rightarrow> char" where
  "digit_char d = ''0123456789'' ! d"

fun show_nat :: "nat \<Rightarrow> string" where
  "show_nat n = (if n < 10 then [digit_char n]
                 else show_nat (n div 10) @ [digit_char (n mod 10)])"

declare show_nat.simps [simp del]

definition show_int :: "int \<Rightarrow> string" where
  "show_int i = (if i < 0 then CHR ''-'' # show_nat (nat (- i)) else show_nat (nat i))"

section \<open>Strokes\<close>

text \<open>
  Coordinates, colours, widths and tool tags are never inspected by the server; only
  the number of points matters to the claims. \<open>strokeData\<close> is the object handed to
  \<open>addStroke\<close>: it is built from a client payload, which may or may not carry an
  \<open>id\<close> property of its own (\<open>sd_id\<close>). \<open>stroke\<close> is the object stored in the
  history.
\<close>

type_synonym point = "int \<times> int"

record strokeData =
  sd_id :: "string option"
  sd_userId :: string
  sd_username :: string
  sd_points :: "point list"
  sd_color :: string
  sd_width :: int
  sd_tool :: string
  sd_timestamp :: int

record stroke =
  stroke_id :: string
  userId :: string
  username :: string
  points :: "point list"
  color :: string
  width :: int
  tool :: string
  timestamp :: int
  createdAt :: int

section \<open>StateManager (server/state-manager.js)\<close>

record StateManager =
  roomStrokes :: "(string \<times> stroke list) list"
  redoStacks :: "(string \<times> (string \<times> stroke list) list) list"
  strokeIdCounter :: nat

definition new_StateManager :: StateManager where
  "new_StateManager = \<lparr>roomStrokes = [], redoStacks = [], strokeIdCounter = 0\<rparr>"

text \<open>\<open>generateStrokeId\<close>: increment the counter, then format
  \<open>stroke_${Date.now()}_${counter}\<close>. The clock reading is a parameter.\<close>

definition strokeIdString :: "int \<Rightarrow> nat \<Rightarrow> string" where
  "strokeIdString now c = ''stroke_'' @ show_int now @ ''_'' @ show_nat c"

definition generateStrokeId :: "int \<Rightarrow> StateManager \<Rightarrow> string \<times> StateManager" where
  "generateStrokeId now s =
     (let s' = s\<lparr>strokeIdCounter := js_increment (strokeIdCounter s)\<rparr>
      in (strokeIdString now (strokeIdCounter s'), s'))"

definition initRoom :: "string \<Rightarrow> StateManager \<Rightarrow> StateManager" where
  "initRoom roomId s =
     (if map_of (roomStrokes s) roomId = None
      then s\<lparr>roomStrokes := AList.update roomId [] (roomStrokes s),
             redoStacks := AList.update roomId [] (redoStacks s)\<rparr>
      else s)"

text \<open>The object literal \<open>{ id: generateStrokeId(), ...strokeData, createdAt: Date.now() }\<close>:
  properties spread from \<open>strokeData\<close> come after \<open>id\<close> and before \<open>createdAt\<close>, so an
  \<open>id\<close> property of \<open>strokeData\<close> replaces the generated one, while \<open>createdAt\<close> is
  always the clock reading.\<close>

definition spread_stroke :: "string \<Rightarrow> strokeData \<Rightarrow> int \<Rightarrow> stroke" where
  "spread_stroke gid sd created =
     \<lparr>stroke_id = (case sd_id sd of None \<Rightarrow> gid | Some own \<Rightarrow> own),
      userId = sd_userId sd, username = sd_username sd, points = sd_points sd,
      color = sd_color sd, width = sd_width sd, tool = sd_tool sd,
      timestamp = sd_timestamp sd, createdAt = created\<rparr>"

text \<open>\<open>addStroke\<close>; \<open>now_id\<close> and \<open>now_created\<close> are the two readings of \<open>Date.now()\<close>.\<close>

definition addStroke ::
  "int \<Rightarrow> int \<Rightarrow> string \<Rightarrow> strokeData \<Rightarrow> StateManager \<Rightarrow> error + (stroke \<times> StateManager)" where
  "addStroke now_id now_created roomId sd s =
     (let s1 = initRoom roomId s;
          (gid, s2) = generateStrokeId now_id s1;
          st = spread_stroke gid sd now_created
      in case map_of (roomStrokes s2) roomId of
           None \<Rightarrow> Inl TypeError
         | Some strokes \<Rightarrow>
             (let s3 = s2\<lparr>roomStrokes := AList.update roomId (strokes @ [st]) (roomStrokes s2)\<rparr>
              in case map_of (redoStacks s3) roomId of
                   None \<Rightarrow> Inl TypeError
                 | Some redoStack \<Rightarrow>
                     (if map_of redoStack (sd_userId sd) \<noteq> None
                      then Inr (st, s3\<lparr>redoStacks :=
                             AList.update roomId (AList.update (sd_userId sd) [] redoStack)
                               (redoStacks s3)\<rparr>)
                      else Inr (st, s3))))"

definition getStrokes :: "string \<Rightarrow> StateManager \<Rightarrow> error + (stroke list \<times> StateManager)" where
  "getStrokes roomId s =
     (let s1 = initRoom roomId s
      in case map_of (roomStrokes s1) roomId of
           None \<Rightarrow> Inl TypeError
         | Some strokes \<Rightarrow> Inr (strokes, s1))"

text \<open>The reverse search of \<open>undoStroke\<close>: \<open>undo_scan strokes u (i + 1)\<close> is the loop
  at index \<open>i\<close>, counting down to \<open>0\<close>; it yields the index of the first match.\<close>

fun undo_scan :: "stroke list \<Rightarrow> string \<Rightarrow> nat \<Rightarrow> nat option" where
  "undo_scan strokes u 0 = None"
| "undo_scan strokes u (Suc i) =
     (if userId (strokes ! i) = u then Some i else undo_scan strokes u i)"

definition undoStroke ::
  "string \<Rightarrow> string \<Rightarrow> StateManager \<Rightarrow> error + (stroke option \<times> StateManager)" where
  "undoStroke roomId u s =
     (let s1 = initRoom roomId s
      in case map_of (roomStrokes s1) roomId of
           None \<Rightarrow> Inl TypeError
         | Some strokes \<Rightarrow>
             (case undo_scan strokes u (length strokes) of
                None \<Rightarrow> Inr (None, s1)
              | Some i \<Rightarrow>
                  (let undoneStroke = strokes ! i;
                       s2 = s1\<lparr>roomStrokes :=
                              AList.update roomId (take i strokes @ drop (Suc i) strokes)
                                (roomStrokes s1)\<rparr>
                   in case map_of (redoStacks s2) roomId of
                        None \<Rightarrow> Inl TypeError
                      | Some redoStack \<Rightarrow>
                          (let redoStack1 =
                                 (if map_of redoStack u = None
                                  then AList.update u [] redoStack else redoStack)
                           in case map_of redoStack1 u of
                                None \<Rightarrow> Inl TypeError
                              | Some stack \<Rightarrow>
                                  Inr (Some undoneStroke,
                                       s2\<lparr>redoStacks :=
                                            AList.update roomId
                                              (AList.update u (stack @ [undoneStroke]) redoStack1)
                                              (redoStacks s2)\<rparr>)))))"

definition redoStroke ::
  "string \<Rightarrow> string \<Rightarrow> StateManager \<Rightarrow> error + (stroke option \<times> StateManager)" where
  "redoStroke roomId u s =
     (let s1 = initRoom roomId s
      in case map_of (roomStrokes s1) roomId of
           None \<Rightarrow> Inl TypeError
         | Some strokes \<Rightarrow>
             (case map_of (redoStacks s1) roomId of
                None \<Rightarrow> Inl TypeError
              | Some redoStack \<Rightarrow>
                  (case map_of redoStack u of
                     None \<Rightarrow> Inr (None, s1)
                   | Some stack \<Rightarrow>
                       if length stack = 0 then Inr (None, s1)
                       else (let st = last stack
                             in Inr (Some st,
                                  s1\<lparr>roomStrokes := AList.update roomId (strokes @ [st]) (roomStrokes s1),
                                     redoStacks :=
                                       AList.update roomId (AList.update u (butlast stack) redoStack)
                                         (redoStacks s1)\<rparr>)))))"

definition clearStrokes :: "string \<Rightarrow> StateManager \<Rightarrow> StateManager" where
  "clearStrokes roomId s =
     (let s1 = initRoom roomId s
      in s1\<lparr>roomStrokes := AList.update roomId [] (roomStrokes s1),
            redoStacks := AList.update roomId [] (redoStacks s1)\<rparr>)"

text \<open>\<open>findIndex\<close> returns the first index whose element satisfies the test.\<close>

fun findIndex :: "('a \<Rightarrow> bool) \<Rightarrow> 'a list \<Rightarrow> nat option" where
  "findIndex P [] = None"
| "findIndex P (x # xs) =
     (if P x then Some 0 else map_option Suc (findIndex P xs))"

definition removeStroke :: "string \<Rightarrow> string \<Rightarrow> StateManager \<Rightarrow> error + (bool \<times> StateManager)" where
  "removeStroke roomId strokeId s =
     (let s1 = initRoom roomId s
      in case map_of (roomStrokes s1) roomId of
           None \<Rightarrow> Inl TypeError
         | Some strokes \<Rightarrow>
             (case findIndex (\<lambda>x. stroke_id x = strokeId) strokes of
                Some index \<Rightarrow>
                  Inr (True, s1\<lparr>roomStrokes :=
                         AList.update roomId (take index strokes @ drop (Suc index) strokes)
                           (roomStrokes s1)\<rparr>)
              | None \<Rightarrow> Inr (False, s1)))"

definition getStrokeCount :: "string \<Rightarrow> StateManager \<Rightarrow> error + (nat \<times> StateManager)" where
  "getStrokeCount roomId s =
     (let s1 = initRoom roomId s
      in case map_of (roomStrokes s1) roomId of
           None \<Rightarrow> Inl TypeError
         | Some strokes \<Rightarrow> Inr (length strokes, s1))"

definition cleanupUserHistory :: "string \<Rightarrow> string \<Rightarrow> StateManager \<Rightarrow> StateManager" where
  "cleanupUserHistory roomId u s =
     (case map_of (redoStacks s) roomId of
        Some redoStack \<Rightarrow>
          s\<lparr>redoStacks := AList.update roomId (AList.delete u redoStack) (redoStacks s)\<rparr>
      | None \<Rightarrow> s)"

definition getUserStrokes ::
  "string \<Rightarrow> string \<Rightarrow> StateManager \<Rightarrow> error + (stroke list \<times> StateManager)" where
  "getUserStrokes roomId u s =
     (let s1 = initRoom roomId s
      in case map_of (roomStrokes s1) roomId of
           None \<Rightarrow> Inl TypeError
         | Some strokes \<Rightarrow> Inr (filter (\<lambda>x. userId x = u) strokes, s1))"

subsection \<open>What a caller can observe\<close>

text \<open>The history of a room as \<open>getStrokes\<close> reports it, and the redo stack of a
  participant as \<open>redoStroke\<close> reads it; an absent room or an absent stack reads as empty.\<close>

definition history :: "StateManager \<Rightarrow> string \<Rightarrow> stroke list" where
  "history s roomId = (case map_of (roomStrokes s) roomId of None \<Rightarrow> [] | Some strokes \<Rightarrow> strokes)"

definition redoStack_of :: "StateManager \<Rightarrow> string \<Rightarrow> string \<Rightarrow> stroke list" where
  "redoStack_of s roomId u =
     (case map_of (redoStacks s) roomId of
        None \<Rightarrow> []
      | Some redoStack \<Rightarrow> (case map_of redoStack u of None \<Rightarrow> [] | Some stack \<Rightarrow> stack))"

text \<open>The two maps are keyed by the same rooms.\<close>

definition rooms_consistent :: "StateManager \<Rightarrow> bool" where
  "rooms_consistent s = (set (map fst (roomStrokes s)) = set (map fst (redoStacks s)))"

section \<open>RoomManager (server/rooms.js)\<close>

record userData =
  ud_id :: string
  ud_username :: string
  ud_color :: string
  cursorX :: int
  cursorY :: int
  isDrawing :: bool

text \<open>\<open>this.rooms\<close>: room key to a \<open>Map\<close> from participant to profile.\<close>

type_synonym RoomManager = "(string \<times> (string \<times> userData) list) list"

definition new_RoomManager :: RoomManager where
  "new_RoomManager = []"

definition createRoom :: "string \<Rightarrow> RoomManager \<Rightarrow> RoomManager" where
  "createRoom roomId rooms =
     (if map_of rooms roomId = None then AList.update roomId [] rooms else rooms)"

definition addUser :: "string \<Rightarrow> userData \<Rightarrow> RoomManager \<Rightarrow> error + RoomManager" where
  "addUser roomId user rooms =
     (let rooms1 = (if map_of rooms roomId = None then createRoom roomId rooms else rooms)
      in case map_of rooms1 roomId of
           None \<Rightarrow> Inl TypeError
         | Some room \<Rightarrow> Inr (AList.update roomId (AList.update (ud_id user) user room) rooms1))"

definition removeUser :: "string \<Rightarrow> string \<Rightarrow> RoomManager \<Rightarrow> bool \<times> RoomManager" where
  "removeUser roomId u rooms =
     (case map_of rooms roomId of
        None \<Rightarrow> (False, rooms)
      | Some room \<Rightarrow>
          (case map_of room u of
             Some user \<Rightarrow>
               (let room1 = AList.delete u room
                in if length room1 = 0 then (True, AList.delete roomId rooms)
                   else (True, AList.update roomId room1 rooms))
           | None \<Rightarrow> (False, rooms)))"

definition getUsers :: "string \<Rightarrow> RoomManager \<Rightarrow> userData list" where
  "getUsers roomId rooms =
     (case map_of rooms roomId of None \<Rightarrow> [] | Some room \<Rightarrow> map snd room)"

definition roomExists :: "string \<Rightarrow> RoomManager \<Rightarrow> bool" where
  "roomExists roomId rooms = (map_of rooms roomId \<noteq> None)"

section \<open>Socket handlers (server/server.js)\<close>

text \<open>
  The payload of a \<open>stroke_complete\<close> message as the server receives it. It is not
  validated, so besides the documented properties it may carry an \<open>id\<close>.
\<close>

record strokePayload =
  d_id :: "string option"
  d_points :: "point list"
  d_color :: string
  d_width :: int
  d_tool :: string

text \<open>
  An emitted message names its recipients: \<open>socket.emit\<close> reaches the connection
  itself, \<open>socket.to(room).emit\<close> every other member of the room, and
  \<open>io.to(room).emit\<close> every member of the room, the sender included.
\<close>

datatype recipients = ThisSocket | OthersInRoom string | WholeRoom string

datatype event =
    Init string string string "stroke list" "userData list"
  | User_joined userData
  | Stroke_saved strokeData
  | Undo_stroke string string "stroke list"
  | Redo_stroke stroke string "stroke list"
  | Canvas_cleared string string
  | User_left string string

record server =
  roomManager :: RoomManager
  stateManager :: StateManager

definition new_server :: server where
  "new_server = \<lparr>roomManager = new_RoomManager, stateManager = new_StateManager\<rparr>"

definition defaultRoom :: string where
  "defaultRoom = ''main''"

text \<open>The connection handler up to the registration of the event handlers. The socket
  identifier and the randomly chosen name and colour are parameters.\<close>

definition connection ::
  "string \<Rightarrow> string \<Rightarrow> string \<Rightarrow> server \<Rightarrow> error + ((recipients \<times> event) list \<times> server)" where
  "connection socket_id uname ucolor srv =
     (let user = \<lparr>ud_id = socket_id, ud_username = uname, ud_color = ucolor,
                   cursorX = 0, cursorY = 0, isDrawing = False\<rparr>
      in case addUser defaultRoom user (roomManager srv) of
           Inl e \<Rightarrow> Inl e
         | Inr rm \<Rightarrow>
             (case getStrokes defaultRoom (stateManager srv) of
                Inl e \<Rightarrow> Inl e
              | Inr (strokes, sm) \<Rightarrow>
                  Inr ([(ThisSocket, Init socket_id uname ucolor strokes (getUsers defaultRoom rm)),
                        (OthersInRoom defaultRoom, User_joined user)],
                       \<lparr>roomManager = rm, stateManager = sm\<rparr>)))"

text \<open>The handlers below run in the closure of one connection, whose \<open>userData\<close> is
  their first argument; \<open>socket.id\<close> is \<open>ud_id user\<close>.\<close>

definition stroke_complete ::
  "userData \<Rightarrow> strokePayload \<Rightarrow> int \<Rightarrow> int \<Rightarrow> int \<Rightarrow> server
     \<Rightarrow> error + ((recipients \<times> event) list \<times> server)" where
  "stroke_complete user data now_ts now_id now_created srv =
     (let strokeData = \<lparr>sd_id = d_id data, sd_userId = ud_id user,
                         sd_username = ud_username user, sd_points = d_points data,
                         sd_color = d_color data, sd_width = d_width data,
                         sd_tool = d_tool data, sd_timestamp = now_ts\<rparr>
      in case addStroke now_id now_created defaultRoom strokeData (stateManager srv) of
           Inl e \<Rightarrow> Inl e
         | Inr (saved, sm) \<Rightarrow>
             Inr ([(WholeRoom defaultRoom, Stroke_saved strokeData)], srv\<lparr>stateManager := sm\<rparr>))"

definition undo :: "userData \<Rightarrow> server \<Rightarrow> error + ((recipients \<times> event) list \<times> server)" where
  "undo user srv =
     (case undoStroke defaultRoom (ud_id user) (stateManager srv) of
        Inl e \<Rightarrow> Inl e
      | Inr (None, sm) \<Rightarrow> Inr ([], srv\<lparr>stateManager := sm\<rparr>)
      | Inr (Some undoneStroke, sm) \<Rightarrow>
          (case getStrokes defaultRoom sm of
             Inl e \<Rightarrow> Inl e
           | Inr (allStrokes, sm1) \<Rightarrow>
               Inr ([(WholeRoom defaultRoom,
                      Undo_stroke (stroke_id undoneStroke) (ud_id user) allStrokes)],
                    srv\<lparr>stateManager := sm1\<rparr>)))"

definition redo :: "userData \<Rightarrow> server \<Rightarrow> error + ((recipients \<times> event) list \<times> server)" where
  "redo user srv =
     (case redoStroke defaultRoom (ud_id user) (stateManager srv) of
        Inl e \<Rightarrow> Inl e
      | Inr (None, sm) \<Rightarrow> Inr ([], srv\<lparr>stateManager := sm\<rparr>)
      | Inr (Some redoneStroke, sm) \<Rightarrow>
          (case getStrokes defaultRoom sm of
             Inl e \<Rightarrow> Inl e
           | Inr (allStrokes, sm1) \<Rightarrow>
               Inr ([(WholeRoom defaultRoom, Redo_stroke redoneStroke (ud_id user) allStrokes)],
                    srv\<lparr>stateManager := sm1\<rparr>)))"

definition clear_canvas ::
  "userData \<Rightarrow> server \<Rightarrow> error + ((recipients \<times> event) list \<times> server)" where
  "clear_canvas user srv =
     Inr ([(WholeRoom defaultRoom, Canvas_cleared (ud_id user) (ud_username user))],
          srv\<lparr>stateManager := clearStrokes defaultRoom (stateManager srv)\<rparr>)"

definition disconnect ::
  "userData \<Rightarrow> server \<Rightarrow> error + ((recipients \<times> event) list \<times> server)" where
  "disconnect user srv =
     (let (removed, rm) = removeUser defaultRoom (ud_id user) (roomManager srv);
          sm = cleanupUserHistory defaultRoom (ud_id user) (stateManager srv)
      in Inr ([(OthersInRoom defaultRoom, User_left (ud_id user) (ud_username user))],
              \<lparr>roomManager = rm, stateManager = sm\<rparr>))"

section \<open>The canvas on the client (client/canvas.js)\<close>

text \<open>
  Only what \<open>stopDrawing\<close> reads and writes: the drawing flag, the path collected so
  far, the style of the stroke in progress (\<open>null\<close> between strokes) and whether the
  \<open>onStrokeComplete\<close> callback is installed. The result is the payload handed to the
  callback, if any.
\<close>

record strokeStyle =
  st_color :: string
  st_width :: int
  st_tool :: string

record CanvasManager =
  cm_isDrawing :: bool
  currentPath :: "point list"
  currentStroke :: "strokeStyle option"
  onStrokeComplete :: bool

definition stopDrawing :: "CanvasManager \<Rightarrow> error + (strokePayload option \<times> CanvasManager)" where
  "stopDrawing c =
     (if \<not> cm_isDrawing c then Inr (None, c)
      else (let c1 = c\<lparr>cm_isDrawing := False\<rparr>;
                reset = c1\<lparr>currentPath := [], currentStroke := None\<rparr>
            in if length (currentPath c1) > 1 \<and> onStrokeComplete c1
               then (case currentStroke c1 of
                       None \<Rightarrow> Inl TypeError
                     | Some cur \<Rightarrow>
                         Inr (Some \<lparr>d_id = None, d_points = currentPath c1,
                                     d_color = st_color cur, d_width = st_width cur,
                                     d_tool = st_tool cur\<rparr>, reset))
               else Inr (None, reset)))"

section \<open>Sequences of store operations\<close>

text \<open>One constructor per public method of \<open>StateManager\<close>; \<open>sm_step\<close> calls the
  method and keeps the state it leaves behind, \<open>sm_run\<close> performs a sequence of calls
  and stops at the first exception.\<close>

datatype sm_op =
    AddStroke int int string strokeData
  | GetStrokes string
  | UndoStroke string string
  | RedoStroke string string
  | ClearStrokes string
  | RemoveStroke string string
  | GetStrokeCount string
  | CleanupUserHistory string string
  | GetUserStrokes string string

fun sm_step :: "sm_op \<Rightarrow> StateManager \<Rightarrow> error + StateManager" where
  "sm_step (AddStroke now_id now_created roomId sd) s =
     map_sum id snd (addStroke now_id now_created roomId sd s)"
| "sm_step (GetStrokes roomId) s = map_sum id snd (getStrokes roomId s)"
| "sm_step (UndoStroke roomId u) s = map_sum id snd (undoStroke roomId u s)"
| "sm_step (RedoStroke roomId u) s = map_sum id snd (redoStroke roomId u s)"
| "sm_step (ClearStrokes roomId) s = Inr (clearStrokes roomId s)"
| "sm_step (RemoveStroke roomId strokeId) s = map_sum id snd (removeStroke roomId strokeId s)"
| "sm_step (GetStrokeCount roomId) s = map_sum id snd (getStrokeCount roomId s)"
| "sm_step (CleanupUserHistory roomId u) s = Inr (cleanupUserHistory roomId u s)"
| "sm_step (GetUserStrokes roomId u) s = map_sum id snd (getUserStrokes roomId u s)"

fun sm_run :: "sm_op list \<Rightarrow> StateManager \<Rightarrow> error + StateManager" where
  "sm_run [] s = Inr s"
| "sm_run (x # xs) s = (case sm_step x s of Inl e \<Rightarrow> Inl e | Inr s1 \<Rightarrow> sm_run xs s1)"

text \<open>\<open>without_id x\<close>: if \<open>x\<close> is a call of \<open>addStroke\<close>, its stroke data carries no
  \<open>id\<close> of its own.\<close>

fun without_id :: "sm_op \<Rightarrow> bool" where
  "without_id (AddStroke now_id now_created roomId sd) = (sd_id sd = None)"
| "without_id x = True"

text \<open>The identifiers produced by \<open>generateStrokeId\<close> during a sequence of calls, in
  the order in which they are produced: one per \<open>addStroke\<close>, generated after the room
  is initialised.\<close>

fun assigned_ids :: "sm_op list \<Rightarrow> StateManager \<Rightarrow> string list" where
  "assigned_ids [] s = []"
| "assigned_ids (x # xs) s =
     (case x of
        AddStroke now_id now_created roomId sd \<Rightarrow> [fst (generateStrokeId now_id (initRoom roomId s))]
      | _ \<Rightarrow> [])
     @ (case sm_step x s of Inl e \<Rightarrow> [] | Inr s1 \<Rightarrow> assigned_ids xs s1)"

subsection \<open>Where the strokes of a room are kept\<close>

text \<open>A stroke of a room sits either in the history (\<open>None\<close>) or on the redo stack of
  one participant (\<open>Some u\<close>). \<open>good_ids n f\<close> says of such a family of lists \<open>f\<close>
  that no identifier occurs twice, within one list or in two of them, and that every
  identifier was generated from a counter value of at most \<open>n\<close>.\<close>

definition slot :: "StateManager \<Rightarrow> string \<Rightarrow> string option \<Rightarrow> stroke list" where
  "slot s roomId l = (case l of None \<Rightarrow> history s roomId | Some u \<Rightarrow> redoStack_of s roomId u)"

definition generated_upto :: "nat \<Rightarrow> string \<Rightarrow> bool" where
  "generated_upto n i = (\<exists>t c. c \<le> n \<and> i = strokeIdString t c)"

definition good_ids :: "nat \<Rightarrow> ('l \<Rightarrow> stroke list) \<Rightarrow> bool" where
  "good_ids n f =
     ((\<forall>l. distinct (map stroke_id (f l)))
      \<and> (\<forall>l. \<forall>x\<in>set (f l). generated_upto n (stroke_id x))
      \<and> (\<forall>l l'. l \<noteq> l' \<longrightarrow> stroke_id ` set (f l) \<inter> stroke_id ` set (f l') = {}))"

definition ids_inv :: "StateManager \<Rightarrow> bool" where
  "ids_inv s = (\<forall>r. good_ids (strokeIdCounter s) (slot s r))"

section \<open>Leaving and joining again\<close>

text \<open>The strokes carried by the \<open>init\<close> message among the emitted messages.\<close>

fun init_strokes :: "(recipients \<times> event) list \<Rightarrow> stroke list option" where
  "init_strokes [] = None"
| "init_strokes ((to, Init uid uname ucolor strokes users) # rest) = Some strokes"
| "init_strokes (m # rest) = init_strokes rest"

text \<open>One participant disconnects and then a new connection arrives. The result is
  whether the room exists in the registry in between, and the history the newcomer
  receives.\<close>

definition leave_then_join ::
  "userData \<Rightarrow> string \<Rightarrow> string \<Rightarrow> string \<Rightarrow> server \<Rightarrow> error + (bool \<times> stroke list option)" where
  "leave_then_join leaver socket_id uname ucolor srv =
     (case disconnect leaver srv of
        Inl e \<Rightarrow> Inl e
      | Inr (out1, srv1) \<Rightarrow>
          (case connection socket_id uname ucolor srv1 of
             Inl e \<Rightarrow> Inl e
           | Inr (out2, srv2) \<Rightarrow>
               Inr (roomExists defaultRoom (roomManager srv1), init_strokes out2)))"

section \<open>Sequences of socket events\<close>

text \<open>The events a connection can deliver to the server, each with the closure data and
  the clock readings its handler uses. \<open>serve\<close> handles a sequence of events in order,
  collects the emitted messages and stops at the first exception.\<close>

datatype action =
    Connect string string string
  | StrokeComplete userData strokePayload int int int
  | UndoRequest userData
  | RedoRequest userData
  | ClearCanvas userData
  | Disconnect userData

fun handle :: "action \<Rightarrow> server \<Rightarrow> error + ((recipients \<times> event) list \<times> server)" where
  "handle (Connect socket_id uname ucolor) srv = connection socket_id uname ucolor srv"
| "handle (StrokeComplete user data now_ts now_id now_created) srv =
     stroke_complete user data now_ts now_id now_created srv"
| "handle (UndoRequest user) srv = undo user srv"
| "handle (RedoRequest user) srv = redo user srv"
| "handle (ClearCanvas user) srv = clear_canvas user srv"
| "handle (Disconnect user) srv = disconnect user srv"

fun serve :: "action list \<Rightarrow> server \<Rightarrow> error + ((recipients \<times> event) list \<times> server)" where
  "serve [] srv = Inr ([], srv)"
| "serve (a # rest) srv =
     (case handle a srv of
        Inl e \<Rightarrow> Inl e
      | Inr (out, srv1) \<Rightarrow>
          (case serve rest srv1 of
             Inl e \<Rightarrow> Inl e
           | Inr (out1, srv2) \<Rightarrow> Inr (out @ out1, srv2)))"

section \<open>Example states\<close>

definition example_stroke :: "string \<Rightarrow> string \<Rightarrow> stroke" where
  "example_stroke i u =
     \<lparr>stroke_id = i, userId = u, username = u, points = [(0, 0), (4, 3)],
      color = ''#e74c3c'', width = 5, tool = ''brush'', timestamp = 1000, createdAt = 1000\<rparr>"

text \<open>Room \<open>main\<close> after \<open>A\<close> and \<open>B\<close> have each committed a stroke and \<open>B\<close> has
  committed and undone a second one.\<close>

definition example_store :: StateManager where
  "example_store =
     \<lparr>roomStrokes = [(''main'', [example_stroke ''stroke_1000_1'' ''A'',
                                 example_stroke ''stroke_1001_2'' ''B''])],
      redoStacks = [(''main'', [(''B'', [example_stroke ''stroke_1002_3'' ''B''])])],
      strokeIdCounter = 3\<rparr>"

definition example_user :: "string \<Rightarrow> userData" where
  "example_user u =
     \<lparr>ud_id = u, ud_username = u, ud_color = ''#3498db'', cursorX = 0, cursorY = 0,
      isDrawing = False\<rparr>"

text \<open>A server whose room \<open>main\<close> has \<open>A\<close> as its only member.\<close>

definition example_server :: server where
  "example_server =
     \<lparr>roomManager = [(''main'', [(''A'', example_user ''A'')])], stateManager = example_store\<rparr>"

definition example_payload :: "point list \<Rightarrow> strokePayload" where
  "example_payload ps =
     \<lparr>d_id = None, d_points = ps, d_color = ''#e74c3c'', d_width = 5, d_tool = ''brush''\<rparr>"

text \<open>\<open>example_store\<close> after \<open>A\<close> has undone its stroke, and after \<open>B\<close> has then
  committed another one.\<close>

definition example_store_undone :: StateManager where
  "example_store_undone =
     example_store
       \<lparr>roomStrokes := [(''main'', [example_stroke ''stroke_1001_2'' ''B''])],
        redoStacks := [(''main'', [(''B'', [example_stroke ''stroke_1002_3'' ''B'']),
                                  (''A'', [example_stroke ''stroke_1000_1'' ''A''])])]\<rparr>"

definition example_store_committed :: StateManager where
  "example_store_committed =
     \<lparr>roomStrokes = [(''main'', [example_stroke ''stroke_1001_2'' ''B'',
                                 (example_stroke ''stroke_1003_4'' ''B'')\<lparr>createdAt := 1004\<rparr>])],
      redoStacks = [(''main'', [(''B'', []),
                                (''A'', [example_stroke ''stroke_1000_1'' ''A''])])],
      strokeIdCounter = 4\<rparr>"

text \<open>The operations that lead to \<open>example_store\<close>.\<close>

definition example_data :: "string \<Rightarrow> strokeData" where
  "example_data u =
     \<lparr>sd_id = None, sd_userId = u, sd_username = u, sd_points = [(0, 0), (4, 3)],
      sd_color = ''#e74c3c'', sd_width = 5, sd_tool = ''brush'', sd_timestamp = 1000\<rparr>"

definition example_ops :: "sm_op list" where
  "example_ops =
     [AddStroke 1000 1000 ''main'' (example_data ''A''),
      AddStroke 1001 1000 ''main'' (example_data ''B''),
      AddStroke 1002 1000 ''main'' (example_data ''B''),
      UndoStroke ''main'' ''B'']"

text \<open>A participant connects and commits two strokes; the payload of the second one
  carries the identifier that the store gave to the first.\<close>

definition example_events :: "action list" where
  "example_events =
     [Connect ''A'' ''A'' ''#3498db'',
      StrokeComplete (example_user ''A'') (example_payload [(1, 1), (2, 2)]) 1000 1000 1000,
      StrokeComplete (example_user ''A'')
        ((example_payload [(3, 3), (4, 4)])\<lparr>d_id := Some ''stroke_1000_1''\<rparr>) 1001 1001 1001]"

section \<open>Basic facts\<close>

subsection \<open>Decimal strings\<close>

lemma digit_char_code: "d < 10 \<Longrightarrow> of_char (digit_char d) = 48 + d"
proof -
  assume d: "d < 10"
  have "\<forall>k\<in>set [0..<10]. (of_char (digit_char k) :: nat) = 48 + k"
    by code_simp
  with d show ?thesis by simp
qed

lemma digit_char_inj:
  assumes "a < 10" and "b < 10" and "digit_char a = digit_char b"
  shows "a = b"
proof -
  have "(48 + a :: nat) = of_char (digit_char a)"
    using assms(1) by (simp add: digit_char_code)
  also have "\<dots> = 48 + b"
    using assms(2,3) by (simp add: digit_char_code)
  finally show ?thesis by simp
qed

lemma digit_char_not_underscore:
  assumes "d < 10"
  shows "digit_char d \<noteq> CHR ''_''"
proof
  assume "digit_char d = CHR ''_''"
  then have "(of_char (digit_char d) :: nat) = 95" by simp
  with assms show False by (simp add: digit_char_code)
qed

lemma show_nat_nonempty: "show_nat n \<noteq> []"
  by (subst show_nat.simps) simp

lemma show_nat_no_underscore: "CHR ''_'' \<notin> set (show_nat n)"
proof (induction n rule: show_nat.induct)
  case (1 n)
  show ?case
  proof (cases "n < 10")
    case True
    then show ?thesis
      using digit_char_not_underscore [of n] by (subst show_nat.simps) auto
  next
    case False
    have "n mod 10 < 10" by simp
    then have "digit_char (n mod 10) \<noteq> CHR ''_''" by (rule digit_char_not_underscore)
    with False 1 show ?thesis by (subst show_nat.simps) auto
  qed
qed

lemma show_nat_inj: "show_nat n = show_nat m \<Longrightarrow> n = m"
proof (induction n arbitrary: m rule: show_nat.induct)
  case (1 n)
  show ?case
  proof (cases "n < 10")
    case n: True
    show ?thesis
    proof (cases "m < 10")
      case True
      with n 1(2) show ?thesis
        by (simp add: show_nat.simps [of n] show_nat.simps [of m] digit_char_inj)
    next
      case False
      with n 1(2) show ?thesis
        using show_nat_nonempty [of "m div 10"]
        by (simp add: show_nat.simps [of n] show_nat.simps [of m])
    qed
  next
    case n: False
    show ?thesis
    proof (cases "m < 10")
      case True
      with n 1(2) show ?thesis
        using show_nat_nonempty [of "n div 10"]
        by (simp add: show_nat.simps [of n] show_nat.simps [of m])
    next
      case False
      with n 1(2) have e: "show_nat (n div 10) = show_nat (m div 10)"
        and d: "digit_char (n mod 10) = digit_char (m mod 10)"
        by (simp_all add: show_nat.simps [of n] show_nat.simps [of m])
      from 1(1) [OF n e] have q: "n div 10 = m div 10" .
      have "n mod 10 = m mod 10" by (rule digit_char_inj [OF _ _ d]) simp_all
      with q show ?thesis by (metis div_mult_mod_eq)
    qed
  qed
qed

lemma last_segment:
  assumes "a @ CHR ''_'' # x = b @ CHR ''_'' # y"
    and "CHR ''_'' \<notin> set x" and "CHR ''_'' \<notin> set y"
  shows "x = y"
proof -
  have "takeWhile (\<lambda>c. c \<noteq> CHR ''_'') (rev (a @ CHR ''_'' # x)) = rev x"
    using assms(2) by (auto simp: takeWhile_tail)
  moreover have "takeWhile (\<lambda>c. c \<noteq> CHR ''_'') (rev (b @ CHR ''_'' # y)) = rev y"
    using assms(3) by (auto simp: takeWhile_tail)
  ultimately have "rev x = rev y" using assms(1) by simp
  then show ?thesis by simp
qed

lemma strokeIdString_inj: "strokeIdString t c = strokeIdString t' c' \<Longrightarrow> c = c'"
proof -
  assume e: "strokeIdString t c = strokeIdString t' c'"
  have "(''stroke_'' @ show_int t) @ CHR ''_'' # show_nat c
      = (''stroke_'' @ show_int t') @ CHR ''_'' # show_nat c'"
    using e by (simp add: strokeIdString_def)
  then have "show_nat c = show_nat c'"
    by (rule last_segment) (rule show_nat_no_underscore)+
  then show ?thesis by (rule show_nat_inj)
qed


subsection \<open>Room initialisation\<close>

lemma consistent_None_iff:
  "rooms_consistent s \<Longrightarrow> (map_of (redoStacks s) r = None) = (map_of (roomStrokes s) r = None)"
  by (simp add: rooms_consistent_def map_of_eq_None_iff)

lemma initRoom_present: "map_of (roomStrokes s) r = Some strokes \<Longrightarrow> initRoom r s = s"
  by (simp add: initRoom_def)

lemma initRoom_roomStrokes:
  "map_of (roomStrokes (initRoom r s)) r' =
     (if r' = r then Some (history s r) else map_of (roomStrokes s) r')"
  by (auto simp: initRoom_def history_def update_conv')

lemma initRoom_redoStacks:
  "rooms_consistent s \<Longrightarrow>
   map_of (redoStacks (initRoom r s)) r' =
     (if r' = r then Some (case map_of (redoStacks s) r of None \<Rightarrow> [] | Some m \<Rightarrow> m)
      else map_of (redoStacks s) r')"
  using consistent_None_iff [of s r]
  by (auto simp: initRoom_def update_conv' split: option.splits)

lemma initRoom_counter [simp]: "strokeIdCounter (initRoom r s) = strokeIdCounter s"
  by (simp add: initRoom_def)

lemma initRoom_consistent: "rooms_consistent s \<Longrightarrow> rooms_consistent (initRoom r s)"
  by (simp add: initRoom_def rooms_consistent_def dom_update)

lemma history_initRoom [simp]: "history (initRoom r s) r' = history s r'"
  by (simp add: history_def [of "initRoom r s"] initRoom_roomStrokes) (simp add: history_def)

lemma redoStack_of_initRoom:
  "rooms_consistent s \<Longrightarrow> redoStack_of (initRoom r s) r' u = redoStack_of s r' u"
  by (simp add: redoStack_of_def [of "initRoom r s"] initRoom_redoStacks)
     (simp add: redoStack_of_def split: option.splits)

subsection \<open>Observations after a field update\<close>

lemma history_roomStrokes_update:
  "history (s\<lparr>roomStrokes := AList.update r xs (roomStrokes s)\<rparr>) r' =
     (if r' = r then xs else history s r')"
  by (simp add: history_def update_conv')

lemma history_other_fields [simp]:
  "history (s\<lparr>redoStacks := X\<rparr>) = history s"
  "history (s\<lparr>strokeIdCounter := c\<rparr>) = history s"
  by (simp_all add: history_def fun_eq_iff)

lemma redoStack_of_other_fields [simp]:
  "redoStack_of (s\<lparr>roomStrokes := Y\<rparr>) = redoStack_of s"
  "redoStack_of (s\<lparr>strokeIdCounter := c\<rparr>) = redoStack_of s"
  by (simp_all add: redoStack_of_def fun_eq_iff)

lemma redoStack_of_update:
  "map_of (redoStacks s) r = Some m \<Longrightarrow>
   redoStack_of (s\<lparr>redoStacks := AList.update r (AList.update u xs m) (redoStacks s)\<rparr>) r' u' =
     (if r' = r \<and> u' = u then xs else redoStack_of s r' u')"
  by (simp add: redoStack_of_def update_conv')

lemma redoStack_of_delete:
  "map_of (redoStacks s) r = Some m \<Longrightarrow>
   redoStack_of (s\<lparr>redoStacks := AList.update r (AList.delete u m) (redoStacks s)\<rparr>) r' u' =
     (if r' = r \<and> u' = u then [] else redoStack_of s r' u')"
  by (simp add: redoStack_of_def update_conv' delete_conv')

lemma redoStack_of_reset:
  "redoStack_of (s\<lparr>redoStacks := AList.update r [] (redoStacks s)\<rparr>) r' u' =
     (if r' = r then [] else redoStack_of s r' u')"
  by (simp add: redoStack_of_def update_conv')

lemma consistent_counter [simp]:
  "rooms_consistent (s\<lparr>strokeIdCounter := c\<rparr>) = rooms_consistent s"
  by (simp add: rooms_consistent_def)

lemma keys_update_present:
  assumes "map_of al k = Some v"
  shows "fst ` set (AList.update k v' al) = fst ` set al"
proof -
  from assms have "(k, v) \<in> set al" by (rule map_of_SomeD)
  then have "k \<in> fst ` set al" by force
  then show ?thesis by (simp add: dom_update insert_absorb)
qed

lemma consistent_roomStrokes_update:
  "map_of (roomStrokes s) r = Some ys \<Longrightarrow>
   rooms_consistent (s\<lparr>roomStrokes := AList.update r xs (roomStrokes s)\<rparr>) = rooms_consistent s"
  by (simp add: rooms_consistent_def keys_update_present)

lemma consistent_redoStacks_update:
  "map_of (redoStacks s) r = Some m \<Longrightarrow>
   rooms_consistent (s\<lparr>redoStacks := AList.update r m' (redoStacks s)\<rparr>) = rooms_consistent s"
  by (simp add: rooms_consistent_def keys_update_present)

subsection \<open>Effect of each method on a consistent store\<close>

lemma initRoom_facts:
  assumes "rooms_consistent s"
  shows "\<exists>m. rooms_consistent (initRoom r s)
           \<and> map_of (roomStrokes (initRoom r s)) r = Some (history s r)
           \<and> map_of (redoStacks (initRoom r s)) r = Some m
           \<and> (\<forall>u. (case map_of m u of None \<Rightarrow> [] | Some stack \<Rightarrow> stack) = redoStack_of s r u)"
proof -
  let ?m = "case map_of (redoStacks s) r of None \<Rightarrow> [] | Some m \<Rightarrow> m"
  have "map_of (redoStacks (initRoom r s)) r = Some ?m"
    using assms by (simp add: initRoom_redoStacks)
  moreover have "\<forall>u. (case map_of ?m u of None \<Rightarrow> [] | Some stack \<Rightarrow> stack) = redoStack_of s r u"
    by (simp add: redoStack_of_def split: option.splits)
  ultimately show ?thesis
    using assms by (simp add: initRoom_consistent initRoom_roomStrokes)
qed

lemma addStroke_result:
  assumes "rooms_consistent s"
  shows "\<exists>s'. addStroke t1 t2 r sd s
            = Inr (spread_stroke (strokeIdString t1 (js_increment (strokeIdCounter s))) sd t2, s')
          \<and> rooms_consistent s'
          \<and> strokeIdCounter s' = js_increment (strokeIdCounter s)
          \<and> (\<forall>r'. history s' r' =
                 (if r' = r
                  then history s r @ [spread_stroke (strokeIdString t1 (js_increment (strokeIdCounter s))) sd t2]
                  else history s r'))
          \<and> (\<forall>r' u. redoStack_of s' r' u =
                 (if r' = r \<and> u = sd_userId sd then [] else redoStack_of s r' u))"
proof -
  let ?st = "spread_stroke (strokeIdString t1 (js_increment (strokeIdCounter s))) sd t2"
  let ?s1 = "initRoom r s"
  obtain m where c1: "rooms_consistent ?s1"
    and h1: "map_of (roomStrokes ?s1) r = Some (history s r)"
    and m: "map_of (redoStacks ?s1) r = Some m"
    and mu: "\<And>u. (case map_of m u of None \<Rightarrow> [] | Some stack \<Rightarrow> stack) = redoStack_of s r u"
    using initRoom_facts [OF assms, of r] by blast
  let ?s3 = "?s1\<lparr>strokeIdCounter := js_increment (strokeIdCounter s),
                 roomStrokes := AList.update r (history s r @ [?st]) (roomStrokes ?s1)\<rparr>"
  have c3: "rooms_consistent ?s3"
    using c1 h1
      consistent_roomStrokes_update [where s = "?s1\<lparr>strokeIdCounter := js_increment (strokeIdCounter s)\<rparr>"
        and r = r and ys = "history s r"]
    by simp
  have h3: "\<And>r'. history ?s3 r' = (if r' = r then history s r @ [?st] else history s r')"
    using history_roomStrokes_update [where s = "?s1\<lparr>strokeIdCounter := js_increment (strokeIdCounter s)\<rparr>"]
    by simp
  have r3: "\<And>r' u. redoStack_of ?s3 r' u = redoStack_of s r' u"
    using assms by (simp add: redoStack_of_initRoom)
  have m3: "map_of (redoStacks ?s3) r = Some m" using m by simp
  show ?thesis
  proof (cases "map_of m (sd_userId sd)")
    case None
    then have "addStroke t1 t2 r sd s = Inr (?st, ?s3)"
      using h1 m by (simp add: addStroke_def generateStrokeId_def Let_def)
    moreover have "redoStack_of s r (sd_userId sd) = []"
      using mu [of "sd_userId sd"] None by simp
    ultimately show ?thesis using c3 h3 r3 by auto
  next
    case (Some stack)
    let ?s4 = "?s3\<lparr>redoStacks := AList.update r (AList.update (sd_userId sd) [] m) (redoStacks ?s3)\<rparr>"
    have "addStroke t1 t2 r sd s = Inr (?st, ?s4)"
      using h1 m Some by (simp add: addStroke_def generateStrokeId_def Let_def)
    moreover have "rooms_consistent ?s4"
      using c3 consistent_redoStacks_update [OF m3] by simp
    moreover have "\<And>r'. history ?s4 r' = (if r' = r then history s r @ [?st] else history s r')"
      using h3 by simp
    moreover have "\<And>r' u. redoStack_of ?s4 r' u =
        (if r' = r \<and> u = sd_userId sd then [] else redoStack_of s r' u)"
      using redoStack_of_update [OF m3] r3 by simp
    ultimately show ?thesis by auto
  qed
qed


lemma undo_scan_None_iff: "undo_scan xs u n = None \<longleftrightarrow> (\<forall>j<n. userId (xs ! j) \<noteq> u)"
  by (induction n) (auto simp: less_Suc_eq)

lemma undo_scan_Some_iff:
  "undo_scan xs u n = Some i \<longleftrightarrow>
     i < n \<and> userId (xs ! i) = u \<and> (\<forall>j. i < j \<and> j < n \<longrightarrow> userId (xs ! j) \<noteq> u)"
proof (induction n)
  case 0
  show ?case by simp
next
  case (Suc n)
  show ?case
  proof (cases "userId (xs ! n) = u")
    case True
    then show ?thesis
      by (auto simp: less_Suc_eq)
  next
    case False
    then show ?thesis
      using Suc by (auto simp: less_Suc_eq)
  qed
qed

lemma getStrokes_result: "getStrokes r s = Inr (history s r, initRoom r s)"
  by (simp add: getStrokes_def Let_def initRoom_roomStrokes)

lemma getStrokeCount_result: "getStrokeCount r s = Inr (length (history s r), initRoom r s)"
  by (simp add: getStrokeCount_def Let_def initRoom_roomStrokes)

lemma getUserStrokes_result:
  "getUserStrokes r u s = Inr (filter (\<lambda>x. userId x = u) (history s r), initRoom r s)"
  by (simp add: getUserStrokes_def Let_def initRoom_roomStrokes)

lemma undoStroke_nothing:
  assumes "undo_scan (history s r) u (length (history s r)) = None"
  shows "undoStroke r u s = Inr (None, initRoom r s)"
  using assms by (simp add: undoStroke_def Let_def initRoom_roomStrokes)

lemma undoStroke_found:
  assumes "rooms_consistent s"
    and "undo_scan (history s r) u (length (history s r)) = Some i"
  shows "\<exists>s'. undoStroke r u s = Inr (Some (history s r ! i), s')
          \<and> rooms_consistent s'
          \<and> strokeIdCounter s' = strokeIdCounter s
          \<and> (\<forall>r'. history s' r' =
                 (if r' = r then take i (history s r) @ drop (Suc i) (history s r)
                  else history s r'))
          \<and> (\<forall>r' u'. redoStack_of s' r' u' =
                 (if r' = r \<and> u' = u then redoStack_of s r u @ [history s r ! i]
                  else redoStack_of s r' u'))"
proof -
  let ?h = "history s r"
  let ?s1 = "initRoom r s"
  obtain m where c1: "rooms_consistent ?s1"
    and h1: "map_of (roomStrokes ?s1) r = Some ?h"
    and m: "map_of (redoStacks ?s1) r = Some m"
    and mu: "\<And>u. (case map_of m u of None \<Rightarrow> [] | Some stack \<Rightarrow> stack) = redoStack_of s r u"
    using initRoom_facts [OF assms(1), of r] by blast
  let ?s2 = "?s1\<lparr>roomStrokes := AList.update r (take i ?h @ drop (Suc i) ?h) (roomStrokes ?s1)\<rparr>"
  have c2: "rooms_consistent ?s2"
    using c1 h1 consistent_roomStrokes_update [where s = ?s1 and r = r and ys = ?h] by simp
  have h2: "\<And>r'. history ?s2 r' = (if r' = r then take i ?h @ drop (Suc i) ?h else history s r')"
    using history_roomStrokes_update [where s = ?s1] by simp
  have r2: "\<And>r' u. redoStack_of ?s2 r' u = redoStack_of s r' u"
    using assms(1) by (simp add: redoStack_of_initRoom)
  have m2: "map_of (redoStacks ?s2) r = Some m" using m by simp
  let ?m1 = "if map_of m u = None then AList.update u [] m else m"
  have m1: "map_of ?m1 u = Some (redoStack_of s r u)"
    using mu [of u] by (auto simp: update_conv')
  have upd: "AList.update u (redoStack_of s r u @ [?h ! i]) ?m1
           = AList.update u (redoStack_of s r u @ [?h ! i]) m"
    by (simp add: update_last)
  let ?s3 = "?s2\<lparr>redoStacks :=
               AList.update r (AList.update u (redoStack_of s r u @ [?h ! i]) m) (redoStacks ?s2)\<rparr>"
  have "undoStroke r u s = Inr (Some (?h ! i), ?s3)"
    using h1 m m1 upd assms(2) by (simp add: undoStroke_def Let_def)
  moreover have "rooms_consistent ?s3"
    using c2 consistent_redoStacks_update [OF m2] by simp
  moreover have "\<And>r'. history ?s3 r' = (if r' = r then take i ?h @ drop (Suc i) ?h else history s r')"
    using h2 by simp
  moreover have "\<And>r' u'. redoStack_of ?s3 r' u' =
      (if r' = r \<and> u' = u then redoStack_of s r u @ [?h ! i] else redoStack_of s r' u')"
    using redoStack_of_update [OF m2] r2 by simp
  ultimately show ?thesis by auto
qed

lemma redoStroke_nothing:
  assumes "rooms_consistent s" and "redoStack_of s r u = []"
  shows "redoStroke r u s = Inr (None, initRoom r s)"
proof -
  obtain m where h1: "map_of (roomStrokes (initRoom r s)) r = Some (history s r)"
    and m: "map_of (redoStacks (initRoom r s)) r = Some m"
    and mu: "\<And>u. (case map_of m u of None \<Rightarrow> [] | Some stack \<Rightarrow> stack) = redoStack_of s r u"
    using initRoom_facts [OF assms(1), of r] by blast
  show ?thesis
    using h1 m mu [of u] assms(2)
    by (simp add: redoStroke_def Let_def split: option.splits)
qed

lemma redoStroke_found:
  assumes "rooms_consistent s" and "redoStack_of s r u \<noteq> []"
  shows "\<exists>s'. redoStroke r u s = Inr (Some (last (redoStack_of s r u)), s')
          \<and> rooms_consistent s'
          \<and> strokeIdCounter s' = strokeIdCounter s
          \<and> (\<forall>r'. history s' r' =
                 (if r' = r then history s r @ [last (redoStack_of s r u)] else history s r'))
          \<and> (\<forall>r' u'. redoStack_of s' r' u' =
                 (if r' = r \<and> u' = u then butlast (redoStack_of s r u)
                  else redoStack_of s r' u'))"
proof -
  let ?h = "history s r" and ?k = "redoStack_of s r u"
  let ?s1 = "initRoom r s"
  obtain m where c1: "rooms_consistent ?s1"
    and h1: "map_of (roomStrokes ?s1) r = Some ?h"
    and m: "map_of (redoStacks ?s1) r = Some m"
    and mu: "\<And>u. (case map_of m u of None \<Rightarrow> [] | Some stack \<Rightarrow> stack) = redoStack_of s r u"
    using initRoom_facts [OF assms(1), of r] by blast
  have k: "map_of m u = Some ?k"
    using mu [of u] assms(2) by (simp split: option.splits)
  let ?s2 = "?s1\<lparr>roomStrokes := AList.update r (?h @ [last ?k]) (roomStrokes ?s1)\<rparr>"
  have c2: "rooms_consistent ?s2"
    using c1 h1 consistent_roomStrokes_update [where s = ?s1 and r = r and ys = ?h] by simp
  have h2: "\<And>r'. history ?s2 r' = (if r' = r then ?h @ [last ?k] else history s r')"
    using history_roomStrokes_update [where s = ?s1] by simp
  have r2: "\<And>r' u. redoStack_of ?s2 r' u = redoStack_of s r' u"
    using assms(1) by (simp add: redoStack_of_initRoom)
  have m2: "map_of (redoStacks ?s2) r = Some m" using m by simp
  let ?s3 = "?s2\<lparr>redoStacks := AList.update r (AList.update u (butlast ?k) m) (redoStacks ?s2)\<rparr>"
  have "redoStroke r u s = Inr (Some (last ?k), ?s3)"
    using h1 m k assms(2) by (simp add: redoStroke_def Let_def)
  moreover have "rooms_consistent ?s3"
    using c2 consistent_redoStacks_update [OF m2] by simp
  moreover have "\<And>r'. history ?s3 r' = (if r' = r then ?h @ [last ?k] else history s r')"
    using h2 by simp
  moreover have "\<And>r' u'. redoStack_of ?s3 r' u' =
      (if r' = r \<and> u' = u then butlast ?k else redoStack_of s r' u')"
    using redoStack_of_update [OF m2] r2 by simp
  ultimately show ?thesis by auto
qed

lemma owner_free_iff:
  "(\<forall>j<length xs. userId (xs ! j) \<noteq> u) \<longleftrightarrow> (\<forall>x\<in>set xs. userId x \<noteq> u)"
  by (metis in_set_conv_nth)

lemma undo_scan_split:
  assumes "undo_scan h u (length h) = Some i"
  shows "h = take i h @ (h ! i) # drop (Suc i) h \<and> userId (h ! i) = u
         \<and> (\<forall>x\<in>set (drop (Suc i) h). userId x \<noteq> u)"
proof -
  from assms have i: "i < length h" and o: "userId (h ! i) = u"
    and later: "\<forall>j. i < j \<and> j < length h \<longrightarrow> userId (h ! j) \<noteq> u"
    by (simp_all add: undo_scan_Some_iff)
  have "\<forall>x\<in>set (drop (Suc i) h). userId x \<noteq> u"
  proof
    fix x assume "x \<in> set (drop (Suc i) h)"
    then obtain k where "k < length h - Suc i" and "x = drop (Suc i) h ! k"
      by (auto simp: in_set_conv_nth)
    then have "x = h ! (Suc i + k)" and "Suc i + k < length h" by simp_all
    with later show "userId x \<noteq> u" by simp
  qed
  with i o show ?thesis by (simp add: id_take_nth_drop)
qed

lemma undo_scan_found:
  assumes "x \<in> set h" and "userId x = u"
  shows "\<exists>i. undo_scan h u (length h) = Some i"
proof (cases "undo_scan h u (length h)")
  case None
  then have "\<forall>x\<in>set h. userId x \<noteq> u"
    by (simp add: undo_scan_None_iff owner_free_iff)
  with assms show ?thesis by blast
next
  case (Some i)
  then show ?thesis by blast
qed

lemma history_clearStrokes:
  "history (clearStrokes r s) r' = (if r' = r then [] else history s r')"
  using history_roomStrokes_update [where s = "initRoom r s" and r = r and xs = "[]"]
  by (simp add: clearStrokes_def Let_def)

lemma redoStack_of_clearStrokes:
  "redoStack_of (clearStrokes r s) r' u = (if r' = r then [] else redoStack_of s r' u)"
  by (simp add: clearStrokes_def Let_def redoStack_of_reset)
     (simp add: initRoom_def redoStack_of_def update_conv')

lemma clearStrokes_counter [simp]: "strokeIdCounter (clearStrokes r s) = strokeIdCounter s"
  by (simp add: clearStrokes_def Let_def)

lemma clearStrokes_consistent:
  assumes "rooms_consistent s"
  shows "rooms_consistent (clearStrokes r s)"
proof -
  have "rooms_consistent (initRoom r s)" using assms by (rule initRoom_consistent)
  then show ?thesis
    by (simp add: clearStrokes_def Let_def rooms_consistent_def dom_update)
qed

lemma history_cleanupUserHistory [simp]:
  "history (cleanupUserHistory r u s) = history s"
  by (simp add: cleanupUserHistory_def split: option.splits)

lemma redoStack_of_cleanupUserHistory:
  "redoStack_of (cleanupUserHistory r u s) r' u' =
     (if r' = r \<and> u' = u then [] else redoStack_of s r' u')"
proof (cases "map_of (redoStacks s) r")
  case None
  then show ?thesis by (auto simp: cleanupUserHistory_def redoStack_of_def)
next
  case (Some m)
  then show ?thesis by (simp add: cleanupUserHistory_def redoStack_of_delete)
qed

lemma cleanupUserHistory_counter [simp]:
  "strokeIdCounter (cleanupUserHistory r u s) = strokeIdCounter s"
  by (simp add: cleanupUserHistory_def split: option.splits)

lemma cleanupUserHistory_consistent:
  "rooms_consistent s \<Longrightarrow> rooms_consistent (cleanupUserHistory r u s)"
  by (auto simp: cleanupUserHistory_def consistent_redoStacks_update split: option.splits)

lemma findIndex_Some: "findIndex P xs = Some i \<Longrightarrow> i < length xs \<and> P (xs ! i)"
proof (induction xs arbitrary: i)
  case Nil
  then show ?case by simp
next
  case (Cons x xs)
  then show ?case by (cases "P x") auto
qed

lemma removeStroke_result:
  assumes "rooms_consistent s"
  shows "\<exists>b s'. removeStroke r sid s = Inr (b, s')
          \<and> rooms_consistent s'
          \<and> strokeIdCounter s' = strokeIdCounter s
          \<and> redoStack_of s' = redoStack_of s
          \<and> (\<forall>r'. history s' r' =
                 (if r' = r
                  then (case findIndex (\<lambda>x. stroke_id x = sid) (history s r) of
                          None \<Rightarrow> history s r
                        | Some i \<Rightarrow> take i (history s r) @ drop (Suc i) (history s r))
                  else history s r'))"
proof -
  let ?h = "history s r"
  let ?s1 = "initRoom r s"
  have c1: "rooms_consistent ?s1" using assms by (rule initRoom_consistent)
  have h1: "map_of (roomStrokes ?s1) r = Some ?h" by (simp add: initRoom_roomStrokes)
  have r1: "redoStack_of ?s1 = redoStack_of s"
    using assms by (simp add: fun_eq_iff redoStack_of_initRoom)
  show ?thesis
  proof (cases "findIndex (\<lambda>x. stroke_id x = sid) ?h")
    case None
    then have "removeStroke r sid s = Inr (False, ?s1)"
      using h1 by (simp add: removeStroke_def Let_def)
    then show ?thesis using None c1 r1 by auto
  next
    case (Some i)
    let ?s2 = "?s1\<lparr>roomStrokes := AList.update r (take i ?h @ drop (Suc i) ?h) (roomStrokes ?s1)\<rparr>"
    have "removeStroke r sid s = Inr (True, ?s2)"
      using h1 Some by (simp add: removeStroke_def Let_def)
    moreover have "rooms_consistent ?s2"
      using c1 h1 consistent_roomStrokes_update [where s = ?s1 and r = r and ys = ?h] by simp
    moreover have "\<And>r'. history ?s2 r' = (if r' = r then take i ?h @ drop (Suc i) ?h else history s r')"
      using history_roomStrokes_update [where s = ?s1] by simp
    moreover have "redoStack_of ?s2 = redoStack_of s" using r1 by simp
    ultimately show ?thesis using Some by auto
  qed
qed

lemma new_StateManager_consistent: "rooms_consistent new_StateManager"
  by (simp add: rooms_consistent_def new_StateManager_def)

lemma sm_step_consistent:
  assumes "rooms_consistent s"
  shows "\<exists>s'. sm_step x s = Inr s' \<and> rooms_consistent s'"
proof (cases x)
  case (AddStroke t1 t2 r sd)
  from addStroke_result [OF assms, of t1 t2 r sd] show ?thesis
    by (auto simp: AddStroke)
next
  case (GetStrokes r)
  then show ?thesis using assms by (simp add: getStrokes_result initRoom_consistent)
next
  case (UndoStroke r u)
  show ?thesis
  proof (cases "undo_scan (history s r) u (length (history s r))")
    case None
    then show ?thesis
      using assms by (simp add: UndoStroke undoStroke_nothing initRoom_consistent)
  next
    case (Some i)
    from undoStroke_found [OF assms Some] show ?thesis by (auto simp: UndoStroke)
  qed
next
  case (RedoStroke r u)
  show ?thesis
  proof (cases "redoStack_of s r u = []")
    case True
    then show ?thesis
      using assms by (simp add: RedoStroke redoStroke_nothing initRoom_consistent)
  next
    case False
    from redoStroke_found [OF assms False] show ?thesis by (auto simp: RedoStroke)
  qed
next
  case (ClearStrokes r)
  then show ?thesis using assms by (simp add: clearStrokes_consistent)
next
  case (RemoveStroke r sid)
  from removeStroke_result [OF assms, of r sid] show ?thesis
    by (auto simp: RemoveStroke)
next
  case (GetStrokeCount r)
  then show ?thesis using assms by (simp add: getStrokeCount_result initRoom_consistent)
next
  case (CleanupUserHistory r u)
  then show ?thesis using assms by (simp add: cleanupUserHistory_consistent)
next
  case (GetUserStrokes r u)
  then show ?thesis using assms by (simp add: getUserStrokes_result initRoom_consistent)
qed

lemma sm_run_consistent:
  "rooms_consistent s \<Longrightarrow> \<exists>s'. sm_run xs s = Inr s' \<and> rooms_consistent s'"
proof (induction xs arbitrary: s)
  case Nil
  then show ?case by simp
next
  case (Cons x xs)
  from sm_step_consistent [OF Cons.prems, of x]
  obtain s1 where s1: "sm_step x s = Inr s1" and c1: "rooms_consistent s1" by blast
  from Cons.IH [OF c1] show ?case using s1 by simp
qed

lemma initRoom_unobservable:
  assumes "rooms_consistent s"
  shows "history (initRoom r s) = history s \<and> redoStack_of (initRoom r s) = redoStack_of s
         \<and> strokeIdCounter (initRoom r s) = strokeIdCounter s
         \<and> (map_of (roomStrokes s) r \<noteq> None \<longrightarrow> initRoom r s = s)"
proof -
  have "map_of (roomStrokes s) r \<noteq> None \<longrightarrow> initRoom r s = s"
    by (simp add: initRoom_def)
  then show ?thesis
    using assms by (simp add: fun_eq_iff redoStack_of_initRoom)
qed

lemma example_ops_run: "sm_run example_ops new_StateManager = Inr example_store"
  by code_simp

lemma example_store_consistent: "rooms_consistent example_store"
  by (simp add: rooms_consistent_def example_store_def)

section \<open>Undo is per owner\<close>

text \<open>
  C1. On a store whose two maps agree on their rooms, \<open>undoStroke\<close> for participant
  \<open>p\<close> removes exactly the last stroke of the history that \<open>p\<close> owns: the history is
  \<open>pre @ st # post\<close> with \<open>st\<close> owned by \<open>p\<close> and nothing in \<open>post\<close> owned by \<open>p\<close>,
  the new history is \<open>pre @ post\<close>, \<open>st\<close> is returned and pushed onto \<open>p\<close>'s redo
  stack, and the strokes of all other participants stay as they were, in the same
  order. If \<open>p\<close> owns no stroke in the history, the result is \<open>null\<close> and neither the
  history of any room nor any redo stack changes.
\<close>

theorem C1_undo_per_owner:
  assumes "rooms_consistent s"
  shows "((\<exists>x\<in>set (history s r). userId x = p) \<longrightarrow>
            (\<exists>st s' pre post.
               undoStroke r p s = Inr (Some st, s')
               \<and> history s r = pre @ st # post \<and> userId st = p
               \<and> (\<forall>x\<in>set post. userId x \<noteq> p)
               \<and> history s' r = pre @ post
               \<and> redoStack_of s' r p = redoStack_of s r p @ [st]
               \<and> filter (\<lambda>x. userId x \<noteq> p) (history s' r)
                   = filter (\<lambda>x. userId x \<noteq> p) (history s r)
               \<and> (\<forall>r'. r' \<noteq> r \<longrightarrow> history s' r' = history s r')))
       \<and> ((\<forall>x\<in>set (history s r). userId x \<noteq> p) \<longrightarrow>
            (\<exists>s'. undoStroke r p s = Inr (None, s')
               \<and> history s' = history s \<and> redoStack_of s' = redoStack_of s))"
proof (intro conjI impI)
  assume "\<exists>x\<in>set (history s r). userId x = p"
  then obtain i where i: "undo_scan (history s r) p (length (history s r)) = Some i"
    using undo_scan_found by blast
  let ?h = "history s r"
  from undo_scan_split [OF i]
  have split: "?h = take i ?h @ (?h ! i) # drop (Suc i) ?h" and own: "userId (?h ! i) = p"
    and post: "\<forall>x\<in>set (drop (Suc i) ?h). userId x \<noteq> p" by simp_all
  from undoStroke_found [OF assms i] obtain s' where
    u: "undoStroke r p s = Inr (Some (?h ! i), s')"
    and h': "history s' r = take i ?h @ drop (Suc i) ?h"
    and k': "redoStack_of s' r p = redoStack_of s r p @ [?h ! i]"
    and o': "\<forall>r'. r' \<noteq> r \<longrightarrow> history s' r' = history s r'"
    by auto
  have "filter (\<lambda>x. userId x \<noteq> p) (take i ?h @ drop (Suc i) ?h)
      = filter (\<lambda>x. userId x \<noteq> p) (take i ?h @ (?h ! i) # drop (Suc i) ?h)"
    using own by simp
  then have f: "filter (\<lambda>x. userId x \<noteq> p) (history s' r) = filter (\<lambda>x. userId x \<noteq> p) ?h"
    using h' split by simp
  show "\<exists>st s' pre post.
               undoStroke r p s = Inr (Some st, s')
               \<and> history s r = pre @ st # post \<and> userId st = p
               \<and> (\<forall>x\<in>set post. userId x \<noteq> p)
               \<and> history s' r = pre @ post
               \<and> redoStack_of s' r p = redoStack_of s r p @ [st]
               \<and> filter (\<lambda>x. userId x \<noteq> p) (history s' r)
                   = filter (\<lambda>x. userId x \<noteq> p) (history s r)
               \<and> (\<forall>r'. r' \<noteq> r \<longrightarrow> history s' r' = history s r')"
  proof (intro exI conjI)
    show "undoStroke r p s = Inr (Some (?h ! i), s')" by (rule u)
    show "history s r = take i ?h @ (?h ! i) # drop (Suc i) ?h" by (rule split)
    show "userId (?h ! i) = p" by (rule own)
    show "\<forall>x\<in>set (drop (Suc i) ?h). userId x \<noteq> p" by (rule post)
    show "history s' r = take i ?h @ drop (Suc i) ?h" by (rule h')
    show "redoStack_of s' r p = redoStack_of s r p @ [?h ! i]" by (rule k')
    show "filter (\<lambda>x. userId x \<noteq> p) (history s' r)
            = filter (\<lambda>x. userId x \<noteq> p) (history s r)" by (rule f)
    show "\<forall>r'. r' \<noteq> r \<longrightarrow> history s' r' = history s r'" by (rule o')
  qed
next
  assume "\<forall>x\<in>set (history s r). userId x \<noteq> p"
  then have "undo_scan (history s r) p (length (history s r)) = None"
    by (simp add: undo_scan_None_iff owner_free_iff)
  then have "undoStroke r p s = Inr (None, initRoom r s)" by (rule undoStroke_nothing)
  moreover have "redoStack_of (initRoom r s) = redoStack_of s"
    using assms by (simp add: fun_eq_iff redoStack_of_initRoom)
  moreover have "history (initRoom r s) = history s" by (simp add: fun_eq_iff)
  ultimately show "\<exists>s'. undoStroke r p s = Inr (None, s')
               \<and> history s' = history s \<and> redoStack_of s' = redoStack_of s"
    by simp
qed

theorem C1_undo_per_owner_witness:
  "rooms_consistent example_store
   \<and> map userId (history example_store ''main'') = [''A'', ''B'']
   \<and> (\<exists>st s' pre post.
         undoStroke ''main'' ''A'' example_store = Inr (Some st, s')
         \<and> history example_store ''main'' = pre @ st # post \<and> userId st = ''A''
         \<and> (\<forall>x\<in>set post. userId x \<noteq> ''A'')
         \<and> history s' ''main'' = pre @ post
         \<and> redoStack_of s' ''main'' ''A'' = redoStack_of example_store ''main'' ''A'' @ [st]
         \<and> filter (\<lambda>x. userId x \<noteq> ''A'') (history s' ''main'')
             = filter (\<lambda>x. userId x \<noteq> ''A'') (history example_store ''main'')
         \<and> (\<forall>r'. r' \<noteq> ''main'' \<longrightarrow> history s' r' = history example_store r'))
   \<and> (\<exists>s'. undoStroke ''main'' ''C'' example_store = Inr (None, s')
         \<and> history s' = history example_store \<and> redoStack_of s' = redoStack_of example_store)"
proof -
  have m: "map userId (history example_store ''main'') = [''A'', ''B'']"
    by (simp add: history_def example_store_def example_stroke_def)
  have a: "\<exists>x\<in>set (history example_store ''main''). userId x = ''A''"
    by (simp add: history_def example_store_def example_stroke_def)
  have c: "\<forall>x\<in>set (history example_store ''main''). userId x \<noteq> ''C''"
    by (simp add: history_def example_store_def example_stroke_def)
  note found = C1_undo_per_owner [OF example_store_consistent, of "''main''" "''A''",
      THEN conjunct1, THEN mp, OF a]
  note absent = C1_undo_per_owner [OF example_store_consistent, of "''main''" "''C''",
      THEN conjunct2, THEN mp, OF c]
  from example_store_consistent m found absent show ?thesis by (intro conjI)
qed

section \<open>The two maps of the store have the same rooms\<close>

text \<open>
  C10. A room key is present in \<open>roomStrokes\<close> if and only if it is present in
  \<open>redoStacks\<close>: this holds for a new \<open>StateManager\<close>, every public method
  (\<open>addStroke\<close>, \<open>getStrokes\<close>, \<open>undoStroke\<close>, \<open>redoStroke\<close>, \<open>clearStrokes\<close>,
  \<open>removeStroke\<close>, \<open>getStrokeCount\<close>, \<open>cleanupUserHistory\<close>, \<open>getUserStrokes\<close>)
  returns without an exception and preserves it, and so it holds after every sequence
  of calls.
\<close>

theorem C10_room_keys_agree:
  "rooms_consistent new_StateManager
   \<and> (rooms_consistent s \<longrightarrow> (\<exists>s'. sm_step x s = Inr s' \<and> rooms_consistent s'))
   \<and> (\<exists>s'. sm_run xs new_StateManager = Inr s' \<and> rooms_consistent s'
         \<and> (\<forall>r. (map_of (roomStrokes s') r = None) = (map_of (redoStacks s') r = None)))"
proof (intro conjI impI)
  show "rooms_consistent new_StateManager" by (rule new_StateManager_consistent)
next
  assume "rooms_consistent s"
  then show "\<exists>s'. sm_step x s = Inr s' \<and> rooms_consistent s'" by (rule sm_step_consistent)
next
  from sm_run_consistent [OF new_StateManager_consistent, of xs]
  obtain s' where "sm_run xs new_StateManager = Inr s'" and "rooms_consistent s'" by blast
  then show "\<exists>s'. sm_run xs new_StateManager = Inr s' \<and> rooms_consistent s'
         \<and> (\<forall>r. (map_of (roomStrokes s') r = None) = (map_of (redoStacks s') r = None))"
    by (simp add: consistent_None_iff)
qed

theorem C10_room_keys_agree_witness:
  "rooms_consistent example_store
   \<and> (\<exists>s'. sm_step (RedoStroke ''main'' ''B'') example_store = Inr s' \<and> rooms_consistent s')"
  using C10_room_keys_agree [of example_store "RedoStroke ''main'' ''B''" "[]"]
    example_store_consistent
  by blast

section \<open>Nothing to undo or redo\<close>

text \<open>
  C8. When the requester owns no stroke in the history, \<open>undoStroke\<close> returns \<open>null\<close>
  and the \<open>undo\<close> handler emits no message; when the requester's redo stack is empty,
  \<open>redoStroke\<close> returns \<open>null\<close> and the \<open>redo\<close> handler emits no message. In both
  cases the history of every room, every redo stack and the identifier counter are
  what they were, and the store is literally unchanged once the room has been
  initialised (it always has been when a handler runs, since the connection handler
  reads the history first).
\<close>

theorem C8_nothing_to_undo_or_redo:
  assumes "rooms_consistent (stateManager srv)"
  shows "((\<forall>x\<in>set (history (stateManager srv) defaultRoom). userId x \<noteq> ud_id user) \<longrightarrow>
            (\<exists>sm. undoStroke defaultRoom (ud_id user) (stateManager srv) = Inr (None, sm)
               \<and> undo user srv = Inr ([], srv\<lparr>stateManager := sm\<rparr>)
               \<and> history sm = history (stateManager srv)
               \<and> redoStack_of sm = redoStack_of (stateManager srv)
               \<and> strokeIdCounter sm = strokeIdCounter (stateManager srv)
               \<and> (map_of (roomStrokes (stateManager srv)) defaultRoom \<noteq> None
                    \<longrightarrow> sm = stateManager srv)))
       \<and> (redoStack_of (stateManager srv) defaultRoom (ud_id user) = [] \<longrightarrow>
            (\<exists>sm. redoStroke defaultRoom (ud_id user) (stateManager srv) = Inr (None, sm)
               \<and> redo user srv = Inr ([], srv\<lparr>stateManager := sm\<rparr>)
               \<and> history sm = history (stateManager srv)
               \<and> redoStack_of sm = redoStack_of (stateManager srv)
               \<and> strokeIdCounter sm = strokeIdCounter (stateManager srv)
               \<and> (map_of (roomStrokes (stateManager srv)) defaultRoom \<noteq> None
                    \<longrightarrow> sm = stateManager srv)))"
proof (intro conjI impI)
  let ?s = "stateManager srv"
  assume "\<forall>x\<in>set (history ?s defaultRoom). userId x \<noteq> ud_id user"
  then have "undo_scan (history ?s defaultRoom) (ud_id user) (length (history ?s defaultRoom)) = None"
    by (simp add: undo_scan_None_iff owner_free_iff)
  then have u: "undoStroke defaultRoom (ud_id user) ?s = Inr (None, initRoom defaultRoom ?s)"
    by (rule undoStroke_nothing)
  then have "undo user srv = Inr ([], srv\<lparr>stateManager := initRoom defaultRoom ?s\<rparr>)"
    by (simp add: undo_def)
  with u initRoom_unobservable [OF assms, of defaultRoom]
  show "\<exists>sm. undoStroke defaultRoom (ud_id user) ?s = Inr (None, sm)
               \<and> undo user srv = Inr ([], srv\<lparr>stateManager := sm\<rparr>)
               \<and> history sm = history ?s
               \<and> redoStack_of sm = redoStack_of ?s
               \<and> strokeIdCounter sm = strokeIdCounter ?s
               \<and> (map_of (roomStrokes ?s) defaultRoom \<noteq> None \<longrightarrow> sm = ?s)"
    by blast
next
  let ?s = "stateManager srv"
  assume "redoStack_of ?s defaultRoom (ud_id user) = []"
  with assms have u: "redoStroke defaultRoom (ud_id user) ?s = Inr (None, initRoom defaultRoom ?s)"
    by (rule redoStroke_nothing)
  then have "redo user srv = Inr ([], srv\<lparr>stateManager := initRoom defaultRoom ?s\<rparr>)"
    by (simp add: redo_def)
  with u initRoom_unobservable [OF assms, of defaultRoom]
  show "\<exists>sm. redoStroke defaultRoom (ud_id user) ?s = Inr (None, sm)
               \<and> redo user srv = Inr ([], srv\<lparr>stateManager := sm\<rparr>)
               \<and> history sm = history ?s
               \<and> redoStack_of sm = redoStack_of ?s
               \<and> strokeIdCounter sm = strokeIdCounter ?s
               \<and> (map_of (roomStrokes ?s) defaultRoom \<noteq> None \<longrightarrow> sm = ?s)"
    by blast
qed

theorem C8_nothing_to_undo_or_redo_witness:
  "rooms_consistent (stateManager example_server)
   \<and> map userId (history (stateManager example_server) defaultRoom) = [''A'', ''B'']
   \<and> ud_id (example_user ''C'') = ''C''
   \<and> redoStack_of (stateManager example_server) defaultRoom (ud_id (example_user ''C'')) = []
   \<and> map_of (roomStrokes (stateManager example_server)) defaultRoom \<noteq> None
   \<and> undo (example_user ''C'') example_server = Inr ([], example_server)
   \<and> redo (example_user ''C'') example_server = Inr ([], example_server)"
proof -
  have c: "rooms_consistent (stateManager example_server)"
    by (simp add: example_server_def example_store_consistent)
  have u: "\<forall>x\<in>set (history (stateManager example_server) defaultRoom).
             userId x \<noteq> ud_id (example_user ''C'')"
    by (simp add: history_def example_server_def example_store_def example_stroke_def
          defaultRoom_def example_user_def)
  have r: "redoStack_of (stateManager example_server) defaultRoom (ud_id (example_user ''C'')) = []"
    by (simp add: redoStack_of_def example_server_def example_store_def defaultRoom_def
          example_user_def)
  have p: "map_of (roomStrokes (stateManager example_server)) defaultRoom \<noteq> None"
    by (simp add: example_server_def example_store_def defaultRoom_def)
  from C8_nothing_to_undo_or_redo [OF c, of "example_user ''C''"] u r p
  have "undo (example_user ''C'') example_server
          = Inr ([], example_server\<lparr>stateManager := stateManager example_server\<rparr>)"
    and "redo (example_user ''C'') example_server
          = Inr ([], example_server\<lparr>stateManager := stateManager example_server\<rparr>)"
    by auto
  moreover have "map userId (history (stateManager example_server) defaultRoom) = [''A'', ''B'']"
    by (simp add: history_def example_server_def example_store_def example_stroke_def
          defaultRoom_def)
  moreover have "ud_id (example_user ''C'') = ''C''" by (simp add: example_user_def)
  ultimately show ?thesis using c r p by simp
qed

section \<open>Redo\<close>

text \<open>
  C6. With a non-empty redo stack, \<open>redoStroke\<close> pops the stroke undone last, returns
  it unchanged and appends it to the end of the room's history. Hence an undo followed
  by a redo of the same participant moves the undone stroke, unchanged, from its
  position to the tail of the history, also when another participant has committed a
  stroke in between.
\<close>

theorem C6_redo_restores_at_tail:
  assumes "rooms_consistent s"
  shows "(redoStack_of s r p \<noteq> [] \<longrightarrow>
            (\<exists>s'. redoStroke r p s = Inr (Some (last (redoStack_of s r p)), s')
               \<and> history s' r = history s r @ [last (redoStack_of s r p)]
               \<and> redoStack_of s' r p = butlast (redoStack_of s r p)))
       \<and> (\<forall>st s1. undoStroke r p s = Inr (Some st, s1) \<longrightarrow>
            (\<exists>s2 pre post. redoStroke r p s1 = Inr (Some st, s2)
               \<and> history s r = pre @ st # post
               \<and> history s2 r = pre @ post @ [st]
               \<and> redoStack_of s2 r p = redoStack_of s r p))
       \<and> (\<forall>st s1 other s2 t1 t2 sd.
            undoStroke r p s = Inr (Some st, s1)
            \<and> addStroke t1 t2 r sd s1 = Inr (other, s2) \<and> sd_userId sd \<noteq> p \<longrightarrow>
            (\<exists>s3 pre post. redoStroke r p s2 = Inr (Some st, s3)
               \<and> history s r = pre @ st # post
               \<and> history s3 r = pre @ post @ [other, st]))"
proof (intro conjI impI allI)
  assume "redoStack_of s r p \<noteq> []"
  from redoStroke_found [OF assms this]
  show "\<exists>s'. redoStroke r p s = Inr (Some (last (redoStack_of s r p)), s')
               \<and> history s' r = history s r @ [last (redoStack_of s r p)]
               \<and> redoStack_of s' r p = butlast (redoStack_of s r p)"
    by auto
next
  fix st s1
  assume u: "undoStroke r p s = Inr (Some st, s1)"
  let ?h = "history s r"
  obtain i where i: "undo_scan ?h p (length ?h) = Some i"
    using u undoStroke_nothing [of s r p] by (cases "undo_scan ?h p (length ?h)") auto
  from undoStroke_found [OF assms i] u
  have st: "st = ?h ! i" and c1: "rooms_consistent s1"
    and h1: "history s1 r = take i ?h @ drop (Suc i) ?h"
    and k1: "redoStack_of s1 r p = redoStack_of s r p @ [st]"
    by auto
  from undo_scan_split [OF i] st have split: "?h = take i ?h @ st # drop (Suc i) ?h" by simp
  have ne: "redoStack_of s1 r p \<noteq> []" using k1 by simp
  from redoStroke_found [OF c1 ne] k1 h1
  have "\<exists>s2. redoStroke r p s1 = Inr (Some st, s2)
          \<and> history s2 r = take i ?h @ drop (Suc i) ?h @ [st]
          \<and> redoStack_of s2 r p = redoStack_of s r p"
    by auto
  with split
  show "\<exists>s2 pre post. redoStroke r p s1 = Inr (Some st, s2)
               \<and> history s r = pre @ st # post
               \<and> history s2 r = pre @ post @ [st]
               \<and> redoStack_of s2 r p = redoStack_of s r p"
    by blast
next
  fix st s1 other s2 t1 t2 sd
  assume a: "undoStroke r p s = Inr (Some st, s1)
            \<and> addStroke t1 t2 r sd s1 = Inr (other, s2) \<and> sd_userId sd \<noteq> p"
  then have u: "undoStroke r p s = Inr (Some st, s1)"
    and ad: "addStroke t1 t2 r sd s1 = Inr (other, s2)" and q: "sd_userId sd \<noteq> p"
    by simp_all
  let ?h = "history s r"
  obtain i where i: "undo_scan ?h p (length ?h) = Some i"
    using u undoStroke_nothing [of s r p] by (cases "undo_scan ?h p (length ?h)") auto
  from undoStroke_found [OF assms i] u
  have st: "st = ?h ! i" and c1: "rooms_consistent s1"
    and h1: "history s1 r = take i ?h @ drop (Suc i) ?h"
    and k1: "redoStack_of s1 r p = redoStack_of s r p @ [st]"
    by auto
  from undo_scan_split [OF i] st have split: "?h = take i ?h @ st # drop (Suc i) ?h" by simp
  from addStroke_result [OF c1, of t1 t2 r sd] ad q
  have c2: "rooms_consistent s2"
    and h2: "history s2 r = history s1 r @ [other]"
    and k2: "redoStack_of s2 r p = redoStack_of s1 r p"
    by auto
  have ne: "redoStack_of s2 r p \<noteq> []" using k1 k2 by simp
  from redoStroke_found [OF c2 ne] k1 k2 h1 h2
  have "\<exists>s3. redoStroke r p s2 = Inr (Some st, s3)
          \<and> history s3 r = take i ?h @ drop (Suc i) ?h @ [other, st]"
    by auto
  with split
  show "\<exists>s3 pre post. redoStroke r p s2 = Inr (Some st, s3)
               \<and> history s r = pre @ st # post
               \<and> history s3 r = pre @ post @ [other, st]"
    by blast
qed

theorem C6_redo_restores_at_tail_witness:
  "rooms_consistent example_store
   \<and> redoStack_of example_store ''main'' ''B'' \<noteq> []
   \<and> (\<exists>s'. redoStroke ''main'' ''B'' example_store
              = Inr (Some (example_stroke ''stroke_1002_3'' ''B''), s')
         \<and> history s' ''main'' = history example_store ''main'' @ [example_stroke ''stroke_1002_3'' ''B'']
         \<and> redoStack_of s' ''main'' ''B'' = [])
   \<and> undoStroke ''main'' ''A'' example_store
       = Inr (Some (example_stroke ''stroke_1000_1'' ''A''), example_store_undone)
   \<and> (\<exists>s2 pre post.
         redoStroke ''main'' ''A'' example_store_undone
           = Inr (Some (example_stroke ''stroke_1000_1'' ''A''), s2)
         \<and> history example_store ''main'' = pre @ example_stroke ''stroke_1000_1'' ''A'' # post
         \<and> history s2 ''main'' = pre @ post @ [example_stroke ''stroke_1000_1'' ''A'']
         \<and> redoStack_of s2 ''main'' ''A'' = redoStack_of example_store ''main'' ''A'')
   \<and> addStroke 1003 1004 ''main'' (example_data ''B'') example_store_undone
       = Inr ((example_stroke ''stroke_1003_4'' ''B'')\<lparr>createdAt := 1004\<rparr>, example_store_committed)
   \<and> sd_userId (example_data ''B'') \<noteq> ''A''
   \<and> (\<exists>s3 pre post.
         redoStroke ''main'' ''A'' example_store_committed
           = Inr (Some (example_stroke ''stroke_1000_1'' ''A''), s3)
         \<and> history example_store ''main'' = pre @ example_stroke ''stroke_1000_1'' ''A'' # post
         \<and> history s3 ''main''
             = pre @ post @ [(example_stroke ''stroke_1003_4'' ''B'')\<lparr>createdAt := 1004\<rparr>,
                             example_stroke ''stroke_1000_1'' ''A''])"
proof -
  note inst = C6_redo_restores_at_tail [OF example_store_consistent, of "''main''"]
  have k: "redoStack_of example_store ''main'' ''B'' = [example_stroke ''stroke_1002_3'' ''B'']"
    by (simp add: redoStack_of_def example_store_def)
  from inst [of "''B''"] k
  have r1: "\<exists>s'. redoStroke ''main'' ''B'' example_store
              = Inr (Some (example_stroke ''stroke_1002_3'' ''B''), s')
         \<and> history s' ''main'' = history example_store ''main'' @ [example_stroke ''stroke_1002_3'' ''B'']
         \<and> redoStack_of s' ''main'' ''B'' = []"
    by simp
  have u: "undoStroke ''main'' ''A'' example_store
             = Inr (Some (example_stroke ''stroke_1000_1'' ''A''), example_store_undone)"
    by code_simp
  have a: "addStroke 1003 1004 ''main'' (example_data ''B'') example_store_undone
       = Inr ((example_stroke ''stroke_1003_4'' ''B'')\<lparr>createdAt := 1004\<rparr>, example_store_committed)"
    by code_simp
  have q: "sd_userId (example_data ''B'') \<noteq> ''A''" by (simp add: example_data_def)
  from inst [of "''A''", THEN conjunct2, THEN conjunct1, rule_format, OF u]
  have r2: "\<exists>s2 pre post.
         redoStroke ''main'' ''A'' example_store_undone
           = Inr (Some (example_stroke ''stroke_1000_1'' ''A''), s2)
         \<and> history example_store ''main'' = pre @ example_stroke ''stroke_1000_1'' ''A'' # post
         \<and> history s2 ''main'' = pre @ post @ [example_stroke ''stroke_1000_1'' ''A'']
         \<and> redoStack_of s2 ''main'' ''A'' = redoStack_of example_store ''main'' ''A''" .
  from inst [of "''A''", THEN conjunct2, THEN conjunct2, rule_format,
      OF conjI [OF u conjI [OF a q]]]
  have r3: "\<exists>s3 pre post.
         redoStroke ''main'' ''A'' example_store_committed
           = Inr (Some (example_stroke ''stroke_1000_1'' ''A''), s3)
         \<and> history example_store ''main'' = pre @ example_stroke ''stroke_1000_1'' ''A'' # post
         \<and> history s3 ''main''
             = pre @ post @ [(example_stroke ''stroke_1003_4'' ''B'')\<lparr>createdAt := 1004\<rparr>,
                             example_stroke ''stroke_1000_1'' ''A'']" .
  have "redoStack_of example_store ''main'' ''B'' \<noteq> []" using k by simp
  with example_store_consistent r1 u r2 a q r3 show ?thesis by (intro conjI)
qed

section \<open>Clearing a room\<close>

text \<open>
  C7. In any state, after \<open>clearStrokes\<close> the history of the room is the empty
  sequence and every participant's redo stack for the room is empty: the room's table
  of redo stacks is a fresh empty \<open>Map\<close>.
\<close>

theorem C7_clear_empties_room:
  "history (clearStrokes roomId s) roomId = []
   \<and> map_of (redoStacks (clearStrokes roomId s)) roomId = Some []
   \<and> (\<forall>u. redoStack_of (clearStrokes roomId s) roomId u = [])"
  by (simp add: clearStrokes_def history_def redoStack_of_def Let_def update_conv')

section \<open>Facts about identifiers\<close>

subsection \<open>Identifiers\<close>

lemma generated_upto_mono: "generated_upto n i \<Longrightarrow> n \<le> m \<Longrightarrow> generated_upto m i"
  by (auto simp: generated_upto_def intro: order_trans)

lemma generated_upto_strokeIdString: "c \<le> n \<Longrightarrow> generated_upto n (strokeIdString t c)"
  by (auto simp: generated_upto_def)

lemma next_id_not_generated: "\<not> generated_upto n (strokeIdString t (Suc n))"
proof
  assume "generated_upto n (strokeIdString t (Suc n))"
  then obtain t' c where c: "c \<le> n" and e: "strokeIdString t (Suc n) = strokeIdString t' c"
    by (auto simp: generated_upto_def)
  from e have "Suc n = c" by (rule strokeIdString_inj)
  with c show False by simp
qed

lemma disjoint_sub: "A \<inter> B = {} \<Longrightarrow> A' \<subseteq> A \<Longrightarrow> B' \<subseteq> B \<Longrightarrow> A' \<inter> B' = {}"
  by blast

lemma disjoint_insert_sub:
  "A \<inter> B = {} \<Longrightarrow> x \<notin> B \<Longrightarrow> B' \<subseteq> B \<Longrightarrow> insert x A \<inter> B' = {} \<and> B' \<inter> insert x A = {}"
  by blast

lemma good_ids_shrink:
  assumes f: "good_ids n f"
    and g: "\<And>l. g l = f l \<or> g l = [] \<or> (\<exists>pre x post. f l = pre @ x # post \<and> g l = pre @ post)"
  shows "good_ids n g"
proof -
  have sub: "\<And>l. set (g l) \<subseteq> set (f l)"
  proof -
    fix l from g [of l] show "set (g l) \<subseteq> set (f l)" by auto
  qed
  have d: "\<And>l. distinct (map stroke_id (g l))"
  proof -
    fix l
    from f have "distinct (map stroke_id (f l))" by (simp add: good_ids_def)
    with g [of l] show "distinct (map stroke_id (g l))" by auto
  qed
  from f have gen: "\<And>l x. x \<in> set (f l) \<Longrightarrow> generated_upto n (stroke_id x)"
    and dis: "\<And>l l'. l \<noteq> l' \<Longrightarrow> stroke_id ` set (f l) \<inter> stroke_id ` set (f l') = {}"
    by (simp_all add: good_ids_def)
  show ?thesis
    unfolding good_ids_def
  proof (intro conjI allI impI ballI)
    fix l show "distinct (map stroke_id (g l))" by (rule d)
  next
    fix l x assume "x \<in> set (g l)"
    with sub [of l] show "generated_upto n (stroke_id x)" by (auto intro: gen)
  next
    fix l l' :: 'a assume "l \<noteq> l'"
    from dis [OF this] sub [of l] sub [of l']
    show "stroke_id ` set (g l) \<inter> stroke_id ` set (g l') = {}" by blast
  qed
qed

lemma good_ids_move:
  assumes f: "good_ids n f" and ab: "a \<noteq> b"
    and fa: "f a = pre @ x # post" and ga: "g a = pre @ post" and gb: "g b = f b @ [x]"
    and rest: "\<And>l. l \<noteq> a \<Longrightarrow> l \<noteq> b \<Longrightarrow> g l = f l"
  shows "good_ids n g"
proof -
  from f have dist: "\<And>l. distinct (map stroke_id (f l))"
    and gen: "\<And>l y. y \<in> set (f l) \<Longrightarrow> generated_upto n (stroke_id y)"
    and dis: "\<And>l l'. l \<noteq> l' \<Longrightarrow> stroke_id ` set (f l) \<inter> stroke_id ` set (f l') = {}"
    by (simp_all add: good_ids_def)
  have xa: "x \<in> set (f a)" using fa by simp
  have x_only: "\<And>l. l \<noteq> a \<Longrightarrow> stroke_id x \<notin> stroke_id ` set (f l)"
    using dis xa by blast
  have x_once: "stroke_id x \<notin> stroke_id ` set (pre @ post)"
    using dist [of a] fa by auto
  have suba: "set (g a) \<subseteq> set (f a)" using fa ga by auto
  have setb: "set (g b) = insert x (set (f b))" using gb by simp
  show ?thesis
    unfolding good_ids_def
  proof (intro conjI allI impI ballI)
    fix l show "distinct (map stroke_id (g l))"
    proof (cases "l = a")
      case True
      with dist [of a] fa ga show ?thesis by auto
    next
      case la: False
      show ?thesis
      proof (cases "l = b")
        case True
        with dist [of b] gb x_only [of b] ab show ?thesis by auto
      next
        case False
        with la rest dist [of l] show ?thesis by simp
      qed
    qed
  next
    fix l y assume y: "y \<in> set (g l)"
    have "y \<in> set (f l) \<or> y = x"
      using y suba setb rest [of l] by (cases "l = a"; cases "l = b") auto
    then show "generated_upto n (stroke_id y)" using gen xa by blast
  next
    fix l l' :: 'a assume ne: "l \<noteq> l'"
    have key: "\<And>k. k \<noteq> a \<Longrightarrow> stroke_id ` set (g k) \<subseteq> stroke_id ` set (f k) \<union> {stroke_id x}"
    proof -
      fix k assume "k \<noteq> a"
      then show "stroke_id ` set (g k) \<subseteq> stroke_id ` set (f k) \<union> {stroke_id x}"
        using setb rest [of k] by (cases "k = b") auto
    qed
    have "stroke_id x \<notin> stroke_id ` set (g a)" using x_once ga by simp
    moreover have "stroke_id ` set (g a) \<subseteq> stroke_id ` set (f a)" using suba by blast
    ultimately have keya: "stroke_id ` set (g a) \<subseteq> stroke_id ` set (f a) - {stroke_id x}"
      by blast
    show "stroke_id ` set (g l) \<inter> stroke_id ` set (g l') = {}"
    proof (cases "l = a")
      case True
      with ne have "l' \<noteq> a" by simp
      from key [OF this] keya dis [OF ne] True show ?thesis by blast
    next
      case la: False
      show ?thesis
      proof (cases "l' = a")
        case True
        from key [OF la] keya dis [OF ne] True show ?thesis by blast
      next
        case l'a: False
        show ?thesis
        proof (cases "l = b")
          case True
          with ne have "l' \<noteq> b" by simp
          with l'a have "g l' = f l'" by (rule rest)
          moreover have "stroke_id ` set (g l) = insert (stroke_id x) (stroke_id ` set (f l))"
            using True setb by simp
          moreover note dis [OF ne] x_only [OF l'a]
          ultimately show ?thesis by simp
        next
          case lb: False
          with la have gl: "g l = f l" by (rule rest)
          show ?thesis
          proof (cases "l' = b")
            case True
            then have "stroke_id ` set (g l') = insert (stroke_id x) (stroke_id ` set (f l'))"
              using setb by simp
            with gl dis [OF ne] x_only [OF la] show ?thesis by simp
          next
            case False
            with l'a have "g l' = f l'" by (rule rest)
            with gl dis [OF ne] show ?thesis by simp
          qed
        qed
      qed
    qed
  qed
qed

lemma good_ids_new:
  assumes f: "good_ids n f" and fresh: "\<not> generated_upto n (stroke_id x)"
    and new: "generated_upto m (stroke_id x)" and nm: "n \<le> m"
    and ga: "g a = f a @ [x]" and rest: "\<And>l. l \<noteq> a \<Longrightarrow> g l = f l \<or> g l = []"
  shows "good_ids m g"
proof -
  from f have dist: "\<And>l. distinct (map stroke_id (f l))"
    and gen: "\<And>l y. y \<in> set (f l) \<Longrightarrow> generated_upto n (stroke_id y)"
    and dis: "\<And>l l'. l \<noteq> l' \<Longrightarrow> stroke_id ` set (f l) \<inter> stroke_id ` set (f l') = {}"
    by (simp_all add: good_ids_def)
  have x_new: "\<And>l. stroke_id x \<notin> stroke_id ` set (f l)"
  proof
    fix l assume "stroke_id x \<in> stroke_id ` set (f l)"
    then obtain y where "y \<in> set (f l)" and "stroke_id x = stroke_id y" by (rule imageE)
    with gen [of y l] fresh show False by simp
  qed
  have sub: "\<And>l. l \<noteq> a \<Longrightarrow> stroke_id ` set (g l) \<subseteq> stroke_id ` set (f l)"
  proof -
    fix l assume "l \<noteq> a"
    from rest [OF this] show "stroke_id ` set (g l) \<subseteq> stroke_id ` set (f l)" by auto
  qed
  have ka: "stroke_id ` set (g a) = insert (stroke_id x) (stroke_id ` set (f a))"
    using ga by simp
  show ?thesis
    unfolding good_ids_def
  proof (intro conjI allI impI ballI)
    fix l show "distinct (map stroke_id (g l))"
    proof (cases "l = a")
      case True
      with dist [of a] ga x_new [of a] show ?thesis by simp
    next
      case False
      with rest [of l] dist [of l] show ?thesis by auto
    qed
  next
    fix l y assume y: "y \<in> set (g l)"
    show "generated_upto m (stroke_id y)"
    proof (cases "l = a")
      case True
      with y ga have "y \<in> set (f a) \<or> y = x" by auto
      then show ?thesis
      proof
        assume "y \<in> set (f a)"
        then have "generated_upto n (stroke_id y)" by (rule gen)
        then show ?thesis using nm by (rule generated_upto_mono)
      next
        assume "y = x"
        with new show ?thesis by simp
      qed
    next
      case False
      from rest [OF False] y have "y \<in> set (f l)" by auto
      then have "generated_upto n (stroke_id y)" by (rule gen)
      then show ?thesis using nm by (rule generated_upto_mono)
    qed
  next
    fix l l' :: 'a assume ne: "l \<noteq> l'"
    show "stroke_id ` set (g l) \<inter> stroke_id ` set (g l') = {}"
    proof (cases "l = a")
      case True
      with ne have l': "l' \<noteq> a" by simp
      have s': "stroke_id ` set (g l') \<subseteq> stroke_id ` set (f l')" using l' by (rule sub)
      have "stroke_id ` set (f a) \<inter> stroke_id ` set (f l') = {}"
        using dis [OF ne] True by simp
      from disjoint_insert_sub [OF this x_new [of l'] s']
      show ?thesis unfolding True ka by simp
    next
      case la: False
      have sl: "stroke_id ` set (g l) \<subseteq> stroke_id ` set (f l)" using la by (rule sub)
      show ?thesis
      proof (cases "l' = a")
        case True
        have "stroke_id ` set (f a) \<inter> stroke_id ` set (f l) = {}"
          using dis [OF ne] True by (simp add: Int_commute)
        from disjoint_insert_sub [OF this x_new [of l] sl]
        show ?thesis unfolding True ka by simp
      next
        case False
        have "stroke_id ` set (g l') \<subseteq> stroke_id ` set (f l')" using False by (rule sub)
        with dis [OF ne] sl show ?thesis by (rule disjoint_sub)
      qed
    qed
  qed
qed

lemma good_ids_mono:
  assumes "good_ids n f" and "n \<le> m"
  shows "good_ids m f"
  using assms unfolding good_ids_def by (blast intro: generated_upto_mono)

lemma slot_simps [simp]:
  "slot s r None = history s r"
  "slot s r (Some u) = redoStack_of s r u"
  by (simp_all add: slot_def)

lemma slot_cong:
  "history s' r = history s r \<Longrightarrow> (\<And>u. redoStack_of s' r u = redoStack_of s r u)
   \<Longrightarrow> slot s' r = slot s r"
  by (auto simp: slot_def fun_eq_iff split: option.splits)

lemma slot_initRoom: "rooms_consistent s \<Longrightarrow> slot (initRoom r s) r' = slot s r'"
  by (rule slot_cong) (simp_all add: redoStack_of_initRoom)

lemma ids_inv_initRoom:
  "rooms_consistent s \<Longrightarrow> ids_inv s \<Longrightarrow> ids_inv (initRoom r s)"
  by (simp add: ids_inv_def slot_initRoom)

lemma stroke_id_spread [simp]:
  "sd_id sd = None \<Longrightarrow> stroke_id (spread_stroke gid sd created) = gid"
  by (simp add: spread_stroke_def)

lemma js_increment_below: "c < 9007199254740992 \<Longrightarrow> js_increment c = Suc c"
  by (simp add: js_increment_def)

lemma js_increment_bounds: "c \<le> js_increment c \<and> js_increment c \<le> Suc c"
  by (simp add: js_increment_def)

lemma addStroke_ids_inv:
  assumes c: "rooms_consistent s" and inv: "ids_inv s" and noid: "sd_id sd = None"
    and below: "strokeIdCounter s < 9007199254740992"
    and res: "addStroke t1 t2 r sd s = Inr (st, s')"
  shows "ids_inv s'"
proof -
  let ?n = "strokeIdCounter s"
  from addStroke_result [OF c, of t1 t2 r sd] res
  have st: "st = spread_stroke (strokeIdString t1 (Suc ?n)) sd t2"
    and n': "strokeIdCounter s' = Suc ?n"
    and h: "\<And>r'. history s' r' = (if r' = r then history s r @ [st] else history s r')"
    and k: "\<And>r' u. redoStack_of s' r' u =
              (if r' = r \<and> u = sd_userId sd then [] else redoStack_of s r' u)"
    by (auto simp: js_increment_below [OF below])
  have sid: "stroke_id st = strokeIdString t1 (Suc ?n)" using st noid by simp
  show ?thesis
    unfolding ids_inv_def n'
  proof
    fix r'
    have f: "good_ids ?n (slot s r')" using inv by (simp add: ids_inv_def)
    show "good_ids (Suc ?n) (slot s' r')"
    proof (cases "r' = r")
      case True
      have "good_ids (Suc ?n) (slot s' r)"
      proof (rule good_ids_new [where a = None and x = st and f = "slot s r" and n = ?n])
        show "good_ids ?n (slot s r)" using inv by (simp add: ids_inv_def)
        show "\<not> generated_upto ?n (stroke_id st)" unfolding sid by (rule next_id_not_generated)
        show "generated_upto (Suc ?n) (stroke_id st)"
          unfolding sid by (rule generated_upto_strokeIdString) simp
        show "?n \<le> Suc ?n" by simp
        show "slot s' r None = slot s r None @ [st]" using h by simp
        fix l :: "string option" assume "l \<noteq> None"
        then obtain u where "l = Some u" by auto
        then show "slot s' r l = slot s r l \<or> slot s' r l = []" using k by simp
      qed
      with True show ?thesis by simp
    next
      case False
      have "slot s' r' = slot s r'" using False h k by (intro slot_cong) simp_all
      with f show ?thesis by (simp add: good_ids_mono)
    qed
  qed
qed

lemma undoStroke_ids_inv:
  assumes c: "rooms_consistent s" and inv: "ids_inv s"
    and i: "undo_scan (history s r) u (length (history s r)) = Some i"
    and res: "undoStroke r u s = Inr (out, s')"
  shows "ids_inv s'"
proof -
  let ?h = "history s r"
  from undoStroke_found [OF c i] res
  have n': "strokeIdCounter s' = strokeIdCounter s"
    and h: "\<And>r'. history s' r' = (if r' = r then take i ?h @ drop (Suc i) ?h else history s r')"
    and k: "\<And>r' u'. redoStack_of s' r' u' =
              (if r' = r \<and> u' = u then redoStack_of s r u @ [?h ! i] else redoStack_of s r' u')"
    by auto
  from undo_scan_split [OF i] have split: "?h = take i ?h @ (?h ! i) # drop (Suc i) ?h" by simp
  show ?thesis
    unfolding ids_inv_def n'
  proof
    fix r'
    have f: "good_ids (strokeIdCounter s) (slot s r')" using inv by (simp add: ids_inv_def)
    show "good_ids (strokeIdCounter s) (slot s' r')"
    proof (cases "r' = r")
      case True
      have "good_ids (strokeIdCounter s) (slot s' r)"
      proof (rule good_ids_move [where a = None and b = "Some u" and f = "slot s r"
              and x = "?h ! i" and pre = "take i ?h" and post = "drop (Suc i) ?h"])
        show "good_ids (strokeIdCounter s) (slot s r)" using inv by (simp add: ids_inv_def)
        show "None \<noteq> Some u" by simp
        show "slot s r None = take i ?h @ (?h ! i) # drop (Suc i) ?h" using split by simp
        show "slot s' r None = take i ?h @ drop (Suc i) ?h" using h by simp
        show "slot s' r (Some u) = slot s r (Some u) @ [?h ! i]" using k by simp
        fix l :: "string option" assume "l \<noteq> None" and "l \<noteq> Some u"
        then obtain v where "l = Some v" and "v \<noteq> u" by auto
        then show "slot s' r l = slot s r l" using k by simp
      qed
      with True show ?thesis by simp
    next
      case False
      have "slot s' r' = slot s r'" using False h k by (intro slot_cong) simp_all
      with f show ?thesis by simp
    qed
  qed
qed

lemma redoStroke_ids_inv:
  assumes c: "rooms_consistent s" and inv: "ids_inv s"
    and ne: "redoStack_of s r u \<noteq> []"
    and res: "redoStroke r u s = Inr (out, s')"
  shows "ids_inv s'"
proof -
  let ?k = "redoStack_of s r u"
  from redoStroke_found [OF c ne] res
  have n': "strokeIdCounter s' = strokeIdCounter s"
    and h: "\<And>r'. history s' r' = (if r' = r then history s r @ [last ?k] else history s r')"
    and k: "\<And>r' u'. redoStack_of s' r' u' =
              (if r' = r \<and> u' = u then butlast ?k else redoStack_of s r' u')"
    by auto
  show ?thesis
    unfolding ids_inv_def n'
  proof
    fix r'
    have f: "good_ids (strokeIdCounter s) (slot s r')" using inv by (simp add: ids_inv_def)
    show "good_ids (strokeIdCounter s) (slot s' r')"
    proof (cases "r' = r")
      case True
      have "good_ids (strokeIdCounter s) (slot s' r)"
      proof (rule good_ids_move [where a = "Some u" and b = None and f = "slot s r"
              and x = "last ?k" and pre = "butlast ?k" and post = "[]"])
        show "good_ids (strokeIdCounter s) (slot s r)" using inv by (simp add: ids_inv_def)
        show "Some u \<noteq> None" by simp
        show "slot s r (Some u) = butlast ?k @ [last ?k]" using ne by simp
        show "slot s' r (Some u) = butlast ?k @ []" using k by simp
        show "slot s' r None = slot s r None @ [last ?k]" using h by simp
        fix l :: "string option" assume "l \<noteq> Some u" and "l \<noteq> None"
        then obtain v where "l = Some v" and "v \<noteq> u" by auto
        then show "slot s' r l = slot s r l" using k by simp
      qed
      with True show ?thesis by simp
    next
      case False
      have "slot s' r' = slot s r'" using False h k by (intro slot_cong) simp_all
      with f show ?thesis by simp
    qed
  qed
qed

lemma ids_inv_shrink:
  assumes inv: "ids_inv s" and n': "strokeIdCounter s' = strokeIdCounter s"
    and g: "\<And>r l. slot s' r l = slot s r l \<or> slot s' r l = []
              \<or> (\<exists>pre x post. slot s r l = pre @ x # post \<and> slot s' r l = pre @ post)"
  shows "ids_inv s'"
  unfolding ids_inv_def n'
proof
  fix r
  have "good_ids (strokeIdCounter s) (slot s r)" using inv by (simp add: ids_inv_def)
  then show "good_ids (strokeIdCounter s) (slot s' r)" using g by (rule good_ids_shrink)
qed

lemma clearStrokes_ids_inv: "ids_inv s \<Longrightarrow> ids_inv (clearStrokes r s)"
proof (rule ids_inv_shrink)
  fix r' l
  show "slot (clearStrokes r s) r' l = slot s r' l \<or> slot (clearStrokes r s) r' l = []
          \<or> (\<exists>pre x post. slot s r' l = pre @ x # post \<and> slot (clearStrokes r s) r' l = pre @ post)"
    by (cases l) (simp_all add: history_clearStrokes redoStack_of_clearStrokes)
qed simp_all

lemma cleanupUserHistory_ids_inv: "ids_inv s \<Longrightarrow> ids_inv (cleanupUserHistory r u s)"
proof (rule ids_inv_shrink)
  fix r' l
  show "slot (cleanupUserHistory r u s) r' l = slot s r' l \<or> slot (cleanupUserHistory r u s) r' l = []
          \<or> (\<exists>pre x post. slot s r' l = pre @ x # post
                \<and> slot (cleanupUserHistory r u s) r' l = pre @ post)"
    by (cases l) (simp_all add: redoStack_of_cleanupUserHistory)
qed simp_all

lemma removeStroke_ids_inv:
  assumes c: "rooms_consistent s" and inv: "ids_inv s"
    and res: "removeStroke r sid s = Inr (b, s')"
  shows "ids_inv s'"
proof -
  let ?h = "history s r"
  from removeStroke_result [OF c, of r sid] res
  have n': "strokeIdCounter s' = strokeIdCounter s"
    and k: "redoStack_of s' = redoStack_of s"
    and h: "\<And>r'. history s' r' =
                 (if r' = r
                  then (case findIndex (\<lambda>x. stroke_id x = sid) ?h of
                          None \<Rightarrow> ?h
                        | Some i \<Rightarrow> take i ?h @ drop (Suc i) ?h)
                  else history s r')"
    by auto
  show ?thesis
  proof (rule ids_inv_shrink [OF inv n'])
    fix r' l
    show "slot s' r' l = slot s r' l \<or> slot s' r' l = []
          \<or> (\<exists>pre x post. slot s r' l = pre @ x # post \<and> slot s' r' l = pre @ post)"
    proof (cases l)
      case (Some v)
      then show ?thesis using k by simp
    next
      case None
      show ?thesis
      proof (cases "findIndex (\<lambda>x. stroke_id x = sid) ?h")
        case n: None
        then show ?thesis using None h by simp
      next
        case (Some i)
        then have "i < length ?h" by (simp add: findIndex_Some)
        then have "?h = take i ?h @ (?h ! i) # drop (Suc i) ?h" by (rule id_take_nth_drop)
        then show ?thesis using None Some h by (cases "r' = r") auto
      qed
    qed
  qed
qed

lemma new_StateManager_ids_inv: "ids_inv new_StateManager"
  by (simp add: ids_inv_def good_ids_def slot_def history_def redoStack_of_def
        new_StateManager_def split: option.splits)

lemma map_sum_snd_Inr: "map_sum id snd z = Inr s' \<Longrightarrow> \<exists>a. z = Inr (a, s')"
  by (cases z) auto

lemma sm_step_counter:
  assumes c: "rooms_consistent s" and res: "sm_step x s = Inr s'"
  shows "strokeIdCounter s' =
           (case x of AddStroke t1 t2 r sd \<Rightarrow> js_increment (strokeIdCounter s) | _ \<Rightarrow> strokeIdCounter s)"
proof (cases x)
  case (AddStroke t1 t2 r sd)
  from addStroke_result [OF c, of t1 t2 r sd] res show ?thesis
    unfolding AddStroke by auto
next
  case (GetStrokes r)
  with res show ?thesis by (auto simp: getStrokes_result)
next
  case (UndoStroke r u)
  show ?thesis
  proof (cases "undo_scan (history s r) u (length (history s r))")
    case None
    with res show ?thesis unfolding UndoStroke by (auto simp: undoStroke_nothing)
  next
    case (Some i)
    from undoStroke_found [OF c Some] res show ?thesis unfolding UndoStroke by auto
  qed
next
  case (RedoStroke r u)
  show ?thesis
  proof (cases "redoStack_of s r u = []")
    case True
    with res c show ?thesis unfolding RedoStroke by (auto simp: redoStroke_nothing)
  next
    case False
    from redoStroke_found [OF c False] res show ?thesis unfolding RedoStroke by auto
  qed
next
  case (ClearStrokes r)
  with res show ?thesis by auto
next
  case (RemoveStroke r sid)
  from removeStroke_result [OF c, of r sid] res show ?thesis unfolding RemoveStroke by auto
next
  case (GetStrokeCount r)
  with res show ?thesis by (auto simp: getStrokeCount_result)
next
  case (CleanupUserHistory r u)
  with res show ?thesis by auto
next
  case (GetUserStrokes r u)
  with res show ?thesis by (auto simp: getUserStrokes_result)
qed

lemma sm_step_ids_inv:
  assumes c: "rooms_consistent s" and inv: "ids_inv s" and w: "without_id x"
    and below: "strokeIdCounter s < 9007199254740992"
    and res: "sm_step x s = Inr s'"
  shows "ids_inv s'"
proof (cases x)
  case (AddStroke t1 t2 r sd)
  from res have "map_sum id snd (addStroke t1 t2 r sd s) = Inr s'" unfolding AddStroke by simp
  then have "\<exists>st. addStroke t1 t2 r sd s = Inr (st, s')" by (rule map_sum_snd_Inr)
  then obtain st where a: "addStroke t1 t2 r sd s = Inr (st, s')" ..
  have "sd_id sd = None" using w unfolding AddStroke by simp
  from addStroke_ids_inv [OF c inv this below a] show ?thesis .
next
  case (GetStrokes r)
  from res have "s' = initRoom r s" unfolding GetStrokes by (simp add: getStrokes_result)
  then show ?thesis using c inv by (simp add: ids_inv_initRoom)
next
  case (UndoStroke r u)
  from res have m: "map_sum id snd (undoStroke r u s) = Inr s'" unfolding UndoStroke by simp
  show ?thesis
  proof (cases "undo_scan (history s r) u (length (history s r))")
    case None
    then have "s' = initRoom r s" using m by (simp add: undoStroke_nothing)
    then show ?thesis using c inv by (simp add: ids_inv_initRoom)
  next
    case (Some i)
    from m have "\<exists>out. undoStroke r u s = Inr (out, s')" by (rule map_sum_snd_Inr)
    then obtain out where "undoStroke r u s = Inr (out, s')" ..
    with c inv Some show ?thesis by (rule undoStroke_ids_inv)
  qed
next
  case (RedoStroke r u)
  from res have m: "map_sum id snd (redoStroke r u s) = Inr s'" unfolding RedoStroke by simp
  show ?thesis
  proof (cases "redoStack_of s r u = []")
    case True
    then have "s' = initRoom r s" using m c by (simp add: redoStroke_nothing)
    then show ?thesis using c inv by (simp add: ids_inv_initRoom)
  next
    case False
    from m have "\<exists>out. redoStroke r u s = Inr (out, s')" by (rule map_sum_snd_Inr)
    then obtain out where "redoStroke r u s = Inr (out, s')" ..
    with c inv False show ?thesis by (rule redoStroke_ids_inv)
  qed
next
  case (ClearStrokes r)
  from res have "s' = clearStrokes r s" unfolding ClearStrokes by simp
  then show ?thesis using inv by (simp add: clearStrokes_ids_inv)
next
  case (RemoveStroke r sid)
  from res have "map_sum id snd (removeStroke r sid s) = Inr s'" unfolding RemoveStroke by simp
  then have "\<exists>b. removeStroke r sid s = Inr (b, s')" by (rule map_sum_snd_Inr)
  then obtain b where "removeStroke r sid s = Inr (b, s')" ..
  with c inv show ?thesis by (rule removeStroke_ids_inv)
next
  case (GetStrokeCount r)
  from res have "s' = initRoom r s" unfolding GetStrokeCount by (simp add: getStrokeCount_result)
  then show ?thesis using c inv by (simp add: ids_inv_initRoom)
next
  case (CleanupUserHistory r u)
  from res have "s' = cleanupUserHistory r u s" unfolding CleanupUserHistory by simp
  then show ?thesis using inv by (simp add: cleanupUserHistory_ids_inv)
next
  case (GetUserStrokes r u)
  from res have "s' = initRoom r s" unfolding GetUserStrokes by (simp add: getUserStrokes_result)
  then show ?thesis using c inv by (simp add: ids_inv_initRoom)
qed

lemma sm_run_ids_inv:
  assumes "rooms_consistent s" and "ids_inv s" and "\<forall>x\<in>set xs. without_id x"
    and "strokeIdCounter s + length xs \<le> 9007199254740992"
  shows "\<exists>s'. sm_run xs s = Inr s' \<and> rooms_consistent s' \<and> ids_inv s'"
  using assms
proof (induction xs arbitrary: s)
  case Nil
  then show ?case by simp
next
  case (Cons x xs)
  from sm_step_consistent [OF Cons.prems(1), of x]
  obtain s1 where s1: "sm_step x s = Inr s1" and c1: "rooms_consistent s1" by blast
  have w: "without_id x" using Cons.prems(3) by simp
  have below: "strokeIdCounter s < 9007199254740992" using Cons.prems(4) by simp
  have i1: "ids_inv s1" using Cons.prems(1,2) w below s1 by (rule sm_step_ids_inv)
  have "strokeIdCounter s1 \<le> Suc (strokeIdCounter s)"
    using sm_step_counter [OF Cons.prems(1) s1] js_increment_bounds [of "strokeIdCounter s"]
    by (cases x) simp_all
  then have b1: "strokeIdCounter s1 + length xs \<le> 9007199254740992"
    using Cons.prems(4) by simp
  have "\<forall>x\<in>set xs. without_id x" using Cons.prems(3) by simp
  from Cons.IH [OF c1 i1 this b1] show ?case using s1 by simp
qed

lemma generateStrokeId_fst:
  "fst (generateStrokeId t s) = strokeIdString t (js_increment (strokeIdCounter s))"
  by (simp add: generateStrokeId_def Let_def)

lemma assigned_ids_later:
  assumes "rooms_consistent s" and "strokeIdCounter s + length xs \<le> 9007199254740992"
    and "i \<in> set (assigned_ids xs s)"
  shows "\<exists>t c. strokeIdCounter s < c \<and> i = strokeIdString t c"
  using assms
proof (induction xs arbitrary: s)
  case Nil
  then show ?case by simp
next
  case (Cons x xs)
  from sm_step_consistent [OF Cons.prems(1), of x]
  obtain s1 where s1: "sm_step x s = Inr s1" and c1: "rooms_consistent s1" by blast
  have below: "strokeIdCounter s < 9007199254740992" using Cons.prems(2) by simp
  have n1: "strokeIdCounter s \<le> strokeIdCounter s1 \<and> strokeIdCounter s1 \<le> Suc (strokeIdCounter s)"
    using sm_step_counter [OF Cons.prems(1) s1] js_increment_bounds [of "strokeIdCounter s"]
    by (cases x) simp_all
  then have b1: "strokeIdCounter s1 + length xs \<le> 9007199254740992"
    using Cons.prems(2) by simp
  from Cons.prems(3) s1
  have "i \<in> set (case x of AddStroke t1 t2 r sd \<Rightarrow> [fst (generateStrokeId t1 (initRoom r s))]
                    | _ \<Rightarrow> [])
        \<or> i \<in> set (assigned_ids xs s1)"
    by simp
  then show ?case
  proof
    assume "i \<in> set (case x of AddStroke t1 t2 r sd \<Rightarrow> [fst (generateStrokeId t1 (initRoom r s))]
                    | _ \<Rightarrow> [])"
    then obtain t1 where "i = strokeIdString t1 (Suc (strokeIdCounter s))"
      by (cases x) (simp_all add: generateStrokeId_fst js_increment_below [OF below])
    then show ?thesis by blast
  next
    assume "i \<in> set (assigned_ids xs s1)"
    from Cons.IH [OF c1 b1 this] obtain t c where "strokeIdCounter s1 < c" and "i = strokeIdString t c"
      by blast
    with n1 have "strokeIdCounter s < c \<and> i = strokeIdString t c" by simp
    then show ?thesis by blast
  qed
qed

lemma assigned_ids_distinct:
  assumes "rooms_consistent s" and "strokeIdCounter s + length xs \<le> 9007199254740992"
  shows "distinct (assigned_ids xs s)"
  using assms
proof (induction xs arbitrary: s)
  case Nil
  then show ?case by simp
next
  case (Cons x xs)
  from sm_step_consistent [OF Cons.prems(1), of x]
  obtain s1 where s1: "sm_step x s = Inr s1" and c1: "rooms_consistent s1" by blast
  have below: "strokeIdCounter s < 9007199254740992" using Cons.prems(2) by simp
  have "strokeIdCounter s1 \<le> Suc (strokeIdCounter s)"
    using sm_step_counter [OF Cons.prems(1) s1] js_increment_bounds [of "strokeIdCounter s"]
    by (cases x) simp_all
  then have b1: "strokeIdCounter s1 + length xs \<le> 9007199254740992"
    using Cons.prems(2) by simp
  have d1: "distinct (assigned_ids xs s1)" using c1 b1 by (rule Cons.IH)
  show ?case
  proof (cases x)
    case (AddStroke t1 t2 r sd)
    have n1: "strokeIdCounter s1 = Suc (strokeIdCounter s)"
      using sm_step_counter [OF Cons.prems(1) s1] unfolding AddStroke
      by (simp add: js_increment_below [OF below])
    have "strokeIdString t1 (Suc (strokeIdCounter s)) \<notin> set (assigned_ids xs s1)"
    proof
      assume "strokeIdString t1 (Suc (strokeIdCounter s)) \<in> set (assigned_ids xs s1)"
      from assigned_ids_later [OF c1 b1 this] obtain t c
        where "strokeIdCounter s1 < c"
          and "strokeIdString t1 (Suc (strokeIdCounter s)) = strokeIdString t c"
        by blast
      then show False using n1 strokeIdString_inj by fastforce
    qed
    with d1 s1 show ?thesis
      unfolding AddStroke by (simp add: generateStrokeId_fst js_increment_below [OF below])
  qed (use d1 s1 in simp_all)
qed

lemma ids_inv_fresh:
  assumes "ids_inv s"
  shows "strokeIdString t (Suc (strokeIdCounter s)) \<notin> stroke_id ` set (slot s r l)"
proof
  assume "strokeIdString t (Suc (strokeIdCounter s)) \<in> stroke_id ` set (slot s r l)"
  then obtain y where y: "y \<in> set (slot s r l)"
    and e: "strokeIdString t (Suc (strokeIdCounter s)) = stroke_id y" by (rule imageE)
  from assms have "good_ids (strokeIdCounter s) (slot s r)" by (simp add: ids_inv_def)
  with y have "generated_upto (strokeIdCounter s) (stroke_id y)" by (simp add: good_ids_def)
  with e have "generated_upto (strokeIdCounter s) (strokeIdString t (Suc (strokeIdCounter s)))"
    by simp
  with next_id_not_generated [of "strokeIdCounter s" t] show False by simp
qed

text \<open>What holds of the identifiers when no committed stroke data carries one of its own
  and the counter stays below \<open>2^53\<close>: the generated identifiers are pairwise distinct,
  and no room history holds two strokes with the same identifier.\<close>

lemma sm_run_distinct_ids:
  assumes "length xs \<le> 9007199254740992"
  shows "distinct (assigned_ids xs new_StateManager)
         \<and> ((\<forall>x\<in>set xs. without_id x) \<longrightarrow>
              (\<exists>s. sm_run xs new_StateManager = Inr s
                 \<and> (\<forall>r. distinct (map stroke_id (history s r)))))"
proof (intro conjI impI)
  have b: "strokeIdCounter new_StateManager + length xs \<le> 9007199254740992"
    using assms by (simp add: new_StateManager_def)
  show "distinct (assigned_ids xs new_StateManager)"
    using new_StateManager_consistent b by (rule assigned_ids_distinct)
  assume "\<forall>x\<in>set xs. without_id x"
  from sm_run_ids_inv [OF new_StateManager_consistent new_StateManager_ids_inv this b]
  obtain s where run: "sm_run xs new_StateManager = Inr s" and inv: "ids_inv s" by blast
  have "\<forall>r. distinct (map stroke_id (history s r))"
  proof
    fix r
    from inv have "good_ids (strokeIdCounter s) (slot s r)" by (simp add: ids_inv_def)
    then have "distinct (map stroke_id (slot s r None))" unfolding good_ids_def by blast
    then show "distinct (map stroke_id (history s r))" by simp
  qed
  with run show "\<exists>s. sm_run xs new_StateManager = Inr s
           \<and> (\<forall>r. distinct (map stroke_id (history s r)))" by blast
qed

text \<open>What \<open>addStroke\<close> does for every stroke data on a store whose two maps agree on
  their rooms: the returned stroke is the new last element of the history, carries the
  clock reading as \<open>createdAt\<close>, the committer's redo stack is empty afterwards and an
  immediate \<open>redoStroke\<close> returns \<open>null\<close> and changes nothing.\<close>

lemma addStroke_appends:
  assumes "rooms_consistent s"
  shows "\<exists>st s'. addStroke t1 t2 r sd s = Inr (st, s')
           \<and> st = spread_stroke (fst (generateStrokeId t1 (initRoom r s))) sd t2
           \<and> createdAt st = t2
           \<and> history s' r = history s r @ [st]
           \<and> redoStack_of s' r (sd_userId sd) = []
           \<and> redoStroke r (sd_userId sd) s' = Inr (None, s')"
proof -
  let ?st = "spread_stroke (strokeIdString t1 (js_increment (strokeIdCounter s))) sd t2"
  from addStroke_result [OF assms, of t1 t2 r sd] obtain s' where
    a: "addStroke t1 t2 r sd s = Inr (?st, s')" and c': "rooms_consistent s'"
    and h: "history s' r = history s r @ [?st]"
    and k: "redoStack_of s' r (sd_userId sd) = []"
    by auto
  have "map_of (roomStrokes s') r \<noteq> None"
    using h by (auto simp: history_def split: option.splits)
  then obtain ys where "map_of (roomStrokes s') r = Some ys" by blast
  then have "initRoom r s' = s'" by (rule initRoom_present)
  with redoStroke_nothing [OF c' k] have rd: "redoStroke r (sd_userId sd) s' = Inr (None, s')"
    by simp
  show ?thesis
  proof (intro exI conjI)
    show "addStroke t1 t2 r sd s = Inr (?st, s')" by (rule a)
    show "?st = spread_stroke (fst (generateStrokeId t1 (initRoom r s))) sd t2"
      by (simp add: generateStrokeId_fst)
    show "createdAt ?st = t2" by (simp add: spread_stroke_def)
    show "history s' r = history s r @ [?st]" by (rule h)
    show "redoStack_of s' r (sd_userId sd) = []" by (rule k)
    show "redoStroke r (sd_userId sd) s' = Inr (None, s')" by (rule rd)
  qed
qed

text \<open>The stored stroke takes its identifier from the stroke data when the data has one,
  and from \<open>generateStrokeId\<close> otherwise. A generated identifier is new to the whole
  store when the store was reached by commits of stroke data without identifiers and
  the counter is below \<open>2^53\<close>.\<close>

lemma spread_stroke_own_id:
  "sd_id sd = Some own \<Longrightarrow> stroke_id (spread_stroke gid sd created) = own"
  by (simp add: spread_stroke_def)

lemma sm_run_counter_le:
  assumes "rooms_consistent s" and "sm_run xs s = Inr s'"
  shows "strokeIdCounter s' \<le> strokeIdCounter s + length xs"
  using assms
proof (induction xs arbitrary: s)
  case Nil
  then show ?case by simp
next
  case (Cons x xs)
  from sm_step_consistent [OF Cons.prems(1), of x]
  obtain s1 where s1: "sm_step x s = Inr s1" and c1: "rooms_consistent s1" by blast
  have "strokeIdCounter s1 \<le> Suc (strokeIdCounter s)"
    using sm_step_counter [OF Cons.prems(1) s1] js_increment_bounds [of "strokeIdCounter s"]
    by (cases x) simp_all
  moreover have "sm_run xs s1 = Inr s'" using Cons.prems(2) s1 by simp
  from Cons.IH [OF c1 this] have "strokeIdCounter s' \<le> strokeIdCounter s1 + length xs" .
  ultimately show ?case by simp
qed

lemma generated_id_fresh:
  assumes run: "sm_run xs new_StateManager = Inr s" and w: "\<forall>x\<in>set xs. without_id x"
    and b: "length xs < 9007199254740992"
  shows "fst (generateStrokeId t (initRoom r s)) \<notin> stroke_id ` set (history s r')
         \<and> fst (generateStrokeId t (initRoom r s)) \<notin> stroke_id ` set (redoStack_of s r' u)"
proof -
  have b0: "strokeIdCounter new_StateManager + length xs \<le> 9007199254740992"
    using b by (simp add: new_StateManager_def)
  from sm_run_ids_inv [OF new_StateManager_consistent new_StateManager_ids_inv w b0] run
  have inv: "ids_inv s" by auto
  from sm_run_counter_le [OF new_StateManager_consistent run]
  have "strokeIdCounter s \<le> length xs" by (simp add: new_StateManager_def)
  with b have below: "strokeIdCounter s < 9007199254740992" by simp
  have g: "fst (generateStrokeId t (initRoom r s)) = strokeIdString t (Suc (strokeIdCounter s))"
    by (simp add: generateStrokeId_fst js_increment_below [OF below])
  from ids_inv_fresh [OF inv, of t r' None] ids_inv_fresh [OF inv, of t r' "Some u"]
  show ?thesis unfolding g by simp
qed

lemma js_increment_limit: "js_increment 9007199254740992 = 9007199254740992"
  by (simp add: js_increment_def)

section \<open>Stroke identifiers\<close>

text \<open>
  C9. The identifier of a stored stroke is not always one the store generated: in
  \<open>{ id: generateStrokeId(), ...strokeData, createdAt: Date.now() }\<close> an \<open>id\<close> property of
  the stroke data replaces the generated one, and the \<open>stroke_complete\<close> handler passes
  the client's payload on unchecked. In the example a participant connects and commits
  a stroke, which is stored as \<open>stroke_1000_1\<close>, and then commits a second stroke whose
  payload carries \<open>id: stroke_1000_1\<close>: the history of the room then holds two strokes
  with the same identifier.
\<close>

theorem C9_history_with_duplicate_ids:
  "map_sum id (\<lambda>(out, srv). map stroke_id (history (stateManager srv) defaultRoom))
     (serve example_events new_server)
   = Inr [''stroke_1000_1'', ''stroke_1000_1'']"
  by code_simp

section \<open>Committing a stroke\<close>

text \<open>
  C5. \<open>addStroke\<close> does not give every committed stroke a fresh identifier. The example
  store is reached by three commits and an undo and holds the stroke \<open>stroke_1000_1\<close>
  in the history of room \<open>main\<close>. Committing stroke data that carries
  \<open>id: stroke_1000_1\<close> appends and returns a stroke with that very identifier, not with
  the generated \<open>stroke_1003_4\<close>; the creation timestamp, the position at the end of the
  history and the emptied redo stack of the committer are as claimed.
\<close>

theorem C5_commit_keeps_payload_id:
  "sm_run example_ops new_StateManager = Inr example_store
   \<and> map stroke_id (history example_store ''main'') = [''stroke_1000_1'', ''stroke_1001_2'']
   \<and> addStroke 1003 1004 ''main'' ((example_data ''B'')\<lparr>sd_id := Some ''stroke_1000_1''\<rparr>)
         example_store
       = Inr ((example_stroke ''stroke_1000_1'' ''B'')\<lparr>createdAt := 1004\<rparr>,
              \<lparr>roomStrokes =
                 [(''main'', [example_stroke ''stroke_1000_1'' ''A'',
                              example_stroke ''stroke_1001_2'' ''B'',
                              (example_stroke ''stroke_1000_1'' ''B'')\<lparr>createdAt := 1004\<rparr>])],
               redoStacks = [(''main'', [(''B'', [])])],
               strokeIdCounter = 4\<rparr>)"
proof (intro conjI)
  show "sm_run example_ops new_StateManager = Inr example_store" by (rule example_ops_run)
  show "map stroke_id (history example_store ''main'') = [''stroke_1000_1'', ''stroke_1001_2'']"
    by (simp add: history_def example_store_def example_stroke_def)
  show "addStroke 1003 1004 ''main'' ((example_data ''B'')\<lparr>sd_id := Some ''stroke_1000_1''\<rparr>)
         example_store
       = Inr ((example_stroke ''stroke_1000_1'' ''B'')\<lparr>createdAt := 1004\<rparr>,
              \<lparr>roomStrokes =
                 [(''main'', [example_stroke ''stroke_1000_1'' ''A'',
                              example_stroke ''stroke_1001_2'' ''B'',
                              (example_stroke ''stroke_1000_1'' ''B'')\<lparr>createdAt := 1004\<rparr>])],
               redoStacks = [(''main'', [(''B'', [])])],
               strokeIdCounter = 4\<rparr>)"
    by code_simp
qed

section \<open>Facts about the socket handlers\<close>

subsection \<open>Connection and disconnection\<close>

lemma addUser_result: "\<exists>rm. addUser r user rooms = Inr rm \<and> map_of rm r \<noteq> None"
  by (auto simp: addUser_def createRoom_def Let_def update_conv' split: option.splits)

lemma connection_result:
  "\<exists>rm. addUser defaultRoom
            \<lparr>ud_id = sid, ud_username = un, ud_color = uc, cursorX = 0, cursorY = 0,
             isDrawing = False\<rparr> (roomManager srv) = Inr rm
        \<and> connection sid un uc srv =
            Inr ([(ThisSocket, Init sid un uc (history (stateManager srv) defaultRoom)
                                 (getUsers defaultRoom rm)),
                  (OthersInRoom defaultRoom,
                   User_joined \<lparr>ud_id = sid, ud_username = un, ud_color = uc, cursorX = 0,
                                cursorY = 0, isDrawing = False\<rparr>)],
                 \<lparr>roomManager = rm, stateManager = initRoom defaultRoom (stateManager srv)\<rparr>)"
proof -
  let ?user = "\<lparr>ud_id = sid, ud_username = un, ud_color = uc, cursorX = 0, cursorY = 0,
                isDrawing = False\<rparr>"
  from addUser_result [of defaultRoom ?user "roomManager srv"]
  obtain rm where "addUser defaultRoom ?user (roomManager srv) = Inr rm" by blast
  then show ?thesis by (simp add: connection_def getStrokes_result)
qed

lemma removeUser_last:
  assumes "map_of rooms r = Some [(u, member)]"
  shows "removeUser r u rooms = (True, AList.delete r rooms)"
  using assms by (simp add: removeUser_def)

lemma disconnect_last_member:
  assumes "map_of (roomManager srv) defaultRoom = Some [(ud_id leaver, member)]"
  shows "disconnect leaver srv =
           Inr ([(OthersInRoom defaultRoom, User_left (ud_id leaver) (ud_username leaver))],
                \<lparr>roomManager = AList.delete defaultRoom (roomManager srv),
                 stateManager = cleanupUserHistory defaultRoom (ud_id leaver) (stateManager srv)\<rparr>)"
  using removeUser_last [OF assms] by (simp add: disconnect_def)

section \<open>A room that becomes empty\<close>

text \<open>
  C2, as the code has it. When the only member of the room disconnects, the room is
  absent from \<open>roomExists\<close> and the leaver's redo stack is discarded, but
  \<open>cleanupUserHistory\<close> leaves the stroke history alone: a participant who connects
  next receives, in its \<open>init\<close> message, exactly the history the room had when it
  emptied.
\<close>

theorem C2_history_survives_empty_room:
  assumes "map_of (roomManager srv) defaultRoom = Some [(ud_id leaver, member)]"
  shows "(\<exists>out srv1. disconnect leaver srv = Inr (out, srv1)
            \<and> \<not> roomExists defaultRoom (roomManager srv1)
            \<and> history (stateManager srv1) = history (stateManager srv)
            \<and> redoStack_of (stateManager srv1) defaultRoom (ud_id leaver) = [])
         \<and> leave_then_join leaver sid un uc srv
             = Inr (False, Some (history (stateManager srv) defaultRoom))"
proof -
  let ?srv1 = "\<lparr>roomManager = AList.delete defaultRoom (roomManager srv),
                 stateManager = cleanupUserHistory defaultRoom (ud_id leaver) (stateManager srv)\<rparr>"
  have d: "disconnect leaver srv =
      Inr ([(OthersInRoom defaultRoom, User_left (ud_id leaver) (ud_username leaver))], ?srv1)"
    using assms by (rule disconnect_last_member)
  have e: "\<not> roomExists defaultRoom (roomManager ?srv1)"
    by (simp add: roomExists_def delete_conv')
  have h: "history (stateManager ?srv1) = history (stateManager srv)" by simp
  have k: "redoStack_of (stateManager ?srv1) defaultRoom (ud_id leaver) = []"
    by (simp add: redoStack_of_cleanupUserHistory)
  from connection_result [of sid un uc ?srv1] obtain rm where
    "connection sid un uc ?srv1 =
       Inr ([(ThisSocket, Init sid un uc (history (stateManager ?srv1) defaultRoom)
                            (getUsers defaultRoom rm)),
             (OthersInRoom defaultRoom,
              User_joined \<lparr>ud_id = sid, ud_username = un, ud_color = uc, cursorX = 0,
                           cursorY = 0, isDrawing = False\<rparr>)],
            \<lparr>roomManager = rm, stateManager = initRoom defaultRoom (stateManager ?srv1)\<rparr>)"
    by blast
  then have j: "leave_then_join leaver sid un uc srv
                 = Inr (False, Some (history (stateManager srv) defaultRoom))"
    using d e by (simp add: leave_then_join_def)
  show ?thesis
  proof (intro conjI exI)
    show "disconnect leaver srv =
      Inr ([(OthersInRoom defaultRoom, User_left (ud_id leaver) (ud_username leaver))], ?srv1)"
      by (rule d)
    show "\<not> roomExists defaultRoom (roomManager ?srv1)" by (rule e)
    show "history (stateManager ?srv1) = history (stateManager srv)" by (rule h)
    show "redoStack_of (stateManager ?srv1) defaultRoom (ud_id leaver) = []" by (rule k)
    show "leave_then_join leaver sid un uc srv
           = Inr (False, Some (history (stateManager srv) defaultRoom))" by (rule j)
  qed
qed

theorem C2_history_survives_empty_room_witness:
  "map_of (roomManager example_server) defaultRoom
     = Some [(ud_id (example_user ''A''), example_user ''A'')]
   \<and> leave_then_join (example_user ''A'') ''B'' ''B'' ''#2ecc71'' example_server
       = Inr (False, Some (history (stateManager example_server) defaultRoom))"
proof -
  have m: "map_of (roomManager example_server) defaultRoom
             = Some [(ud_id (example_user ''A''), example_user ''A'')]"
    by (simp add: example_server_def defaultRoom_def example_user_def)
  from C2_history_survives_empty_room [OF m, of "''B''" "''B''" "''#2ecc71''"] m
  show ?thesis by simp
qed

text \<open>
  C2 as claimed, refuted. In the example server \<open>A\<close> is the only member and the history
  holds two strokes. After \<open>A\<close> disconnects the room no longer exists in the registry,
  yet the newcomer \<open>B\<close> receives both strokes, not an empty history.
\<close>

theorem C2_rejoin_sees_old_strokes:
  "leave_then_join (example_user ''A'') ''B'' ''B'' ''#2ecc71'' example_server
     = Inr (False, Some [example_stroke ''stroke_1000_1'' ''A'',
                         example_stroke ''stroke_1001_2'' ''B''])
   \<and> leave_then_join (example_user ''A'') ''B'' ''B'' ''#2ecc71'' example_server
       \<noteq> Inr (False, Some [])"
proof -
  have "leave_then_join (example_user ''A'') ''B'' ''B'' ''#2ecc71'' example_server
     = Inr (False, Some [example_stroke ''stroke_1000_1'' ''A'',
                         example_stroke ''stroke_1001_2'' ''B''])"
    by code_simp
  then show ?thesis by simp
qed

section \<open>What a commit broadcasts\<close>

text \<open>
  C3. The \<open>stroke_complete\<close> handler ignores the stroke returned by \<open>addStroke\<close> and
  emits the \<open>strokeData\<close> it built before the call. In the example the stored stroke
  has the identifier \<open>stroke_1004_4\<close> and \<open>createdAt = 1005\<close>, while the
  \<open>stroke_saved\<close> message sent to the whole room has no identifier and no creation
  timestamp.
\<close>

theorem C3_stroke_saved_without_id:
  "stroke_complete (example_user ''A'') (example_payload [(1, 1), (2, 2)]) 1003 1004 1005
     example_server =
   Inr ([(WholeRoom ''main'',
          Stroke_saved \<lparr>sd_id = None, sd_userId = ''A'', sd_username = ''A'',
                        sd_points = [(1, 1), (2, 2)], sd_color = ''#e74c3c'', sd_width = 5,
                        sd_tool = ''brush'', sd_timestamp = 1003\<rparr>)],
        example_server\<lparr>stateManager := example_store
          \<lparr>roomStrokes :=
             [(''main'', [example_stroke ''stroke_1000_1'' ''A'',
                          example_stroke ''stroke_1001_2'' ''B'',
                          \<lparr>stroke_id = ''stroke_1004_4'', userId = ''A'', username = ''A'',
                           points = [(1, 1), (2, 2)], color = ''#e74c3c'', width = 5,
                           tool = ''brush'', timestamp = 1003, createdAt = 1005\<rparr>])],
           strokeIdCounter := 4\<rparr>\<rparr>)"
  by code_simp

text \<open>
  C4. The \<open>stroke_complete\<close> handler does not look at the points: a payload with a
  single point is stored in the history and broadcast to the whole room like any other.
\<close>

theorem C4_short_stroke_is_persisted:
  "stroke_complete (example_user ''A'') (example_payload [(7, 7)]) 1003 1004 1005
     example_server =
   Inr ([(WholeRoom ''main'',
          Stroke_saved \<lparr>sd_id = None, sd_userId = ''A'', sd_username = ''A'',
                        sd_points = [(7, 7)], sd_color = ''#e74c3c'', sd_width = 5,
                        sd_tool = ''brush'', sd_timestamp = 1003\<rparr>)],
        example_server\<lparr>stateManager := example_store
          \<lparr>roomStrokes :=
             [(''main'', [example_stroke ''stroke_1000_1'' ''A'',
                          example_stroke ''stroke_1001_2'' ''B'',
                          \<lparr>stroke_id = ''stroke_1004_4'', userId = ''A'', username = ''A'',
                           points = [(7, 7)], color = ''#e74c3c'', width = 5,
                           tool = ''brush'', timestamp = 1003, createdAt = 1005\<rparr>])],
           strokeIdCounter := 4\<rparr>\<rparr>)"
  by code_simp

text \<open>On the client, \<open>stopDrawing\<close> does make the check: it never hands a path of
  fewer than two points to \<open>onStrokeComplete\<close>.\<close>

lemma stopDrawing_at_least_two_points:
  "stopDrawing c = Inr (Some data, c') \<Longrightarrow> 2 \<le> length (d_points data)"
  by (auto simp: stopDrawing_def Let_def split: if_splits option.splits)

end
